theory Spec2Isabelle
  imports Complex_Main "HOL-Library.Word" "HOL-Library.AList" "HOL-Library.Code_Target_Numeral"
begin

section \<open>Map constants (config/mapConstants.js)\<close>

definition MAP_WIDTH :: int where
  "MAP_WIDTH = 640"

definition MAP_HEIGHT :: int where
  "MAP_HEIGHT = 640"

text \<open>
  \<^verbatim>\<open>MINE_DENSITY: 0.15\<close> is a JavaScript number literal, that is the IEEE-754 double
  nearest to 3/20. Its bit pattern is \<^verbatim>\<open>0x3FC3333333333333\<close>, whose exact value is
  the rational below (slightly less than 3/20).
\<close>

definition MINE_DENSITY :: rat where
  "MINE_DENSITY = 5404319552844595 / 2 ^ 55"

text \<open>
  The seed comes from the configuration. The SHA-256 implementation is Node's
  \<^verbatim>\<open>crypto\<close> library, which is not part of the repository: the composition
  \<^verbatim>\<open>createHash('sha256').update(s).digest().readBigUInt64BE(0)\<close> is taken as a
  parameter \<open>sha256_u64\<close>, the first eight digest bytes read as a big-endian
  unsigned 64-bit integer.
\<close>

record config =
  MAP_SEED :: string
  sha256_u64 :: "string \<Rightarrow> 64 word"

section \<open>Map oracle (core/gameUtils.js)\<close>

subsection \<open>JavaScript primitives used by the oracle\<close>

text \<open>Decimal rendering of a non-negative integer, as a template literal prints it.\<close>

definition digit_char :: "nat \<Rightarrow> char" where
  "digit_char d = ''0123456789'' ! d"

fun decimal :: "nat \<Rightarrow> string" where
  "decimal n = (if n < 10 then [digit_char n] else decimal (n div 10) @ [digit_char (n mod 10)])"

declare decimal.simps [simp del]

definition number_toString :: "int \<Rightarrow> string" where
  "number_toString i = (if i < 0 then CHR ''-'' # decimal (nat (- i)) else decimal (nat i))"

text \<open>The remainder operator \<^verbatim>\<open>%\<close> of JavaScript truncates: the result has the sign of the dividend.\<close>

definition js_rem :: "int \<Rightarrow> int \<Rightarrow> int" where
  "js_rem a b = sgn a * (\<bar>a\<bar> mod \<bar>b\<bar>)"

text \<open>
  \<^verbatim>\<open>Number(hashInt)\<close> converts a BigInt to the nearest double, ties to even. A double has
  a 53-bit significand: an integer of \<open>e > 53\<close> bits keeps its top 53 bits \<open>q\<close>, rounded
  on the \<open>e - 53\<close> bits \<open>r\<close> below them. The result is again an integer, returned
  as such.
\<close>

fun bit_length :: "nat \<Rightarrow> nat" where
  "bit_length n = (if n = 0 then 0 else Suc (bit_length (n div 2)))"

declare bit_length.simps [simp del]

definition Number_of_BigInt :: "nat \<Rightarrow> nat" where
  "Number_of_BigInt n =
     (let e = bit_length n in
      if e \<le> 53 then n
      else
        let s = e - 53; q = n div 2 ^ s; r = n mod 2 ^ s; half = 2 ^ (s - 1) in
        (if half < r \<or> (r = half \<and> odd q) then q + 1 else q) * 2 ^ s)"

subsection \<open>isMine\<close>

text \<open>
  Coordinates are integers. \<^verbatim>\<open>Number(hashInt) / Number(2n**64n)\<close> divides a double by
  a power of two, which is exact, so \<open>normalizedValue\<close> is the rational shown; the final
  comparison of two doubles is the comparison of their values.
\<close>

definition isMine :: "config \<Rightarrow> int \<Rightarrow> int \<Rightarrow> bool" where
  "isMine cfg x y =
     (if x < 0 \<or> x \<ge> MAP_WIDTH \<or> y < 0 \<or> y \<ge> MAP_HEIGHT then False
      else
        let seedInput = MAP_SEED cfg @ '':'' @ number_toString x @ '','' @ number_toString y;
            hashInt = unat (sha256_u64 cfg seedInput);
            normalizedValue = (of_nat (Number_of_BigInt hashInt) :: rat) / 2 ^ 64
        in normalizedValue < MINE_DENSITY)"

subsection \<open>calculateAdjacentMines\<close>

text \<open>The pairs \<open>(dx, dy)\<close> in the order the two nested loops visit them, \<open>(0, 0)\<close> skipped.\<close>

definition offsets :: "(int \<times> int) list" where
  "offsets = [(dx, dy). dx \<leftarrow> [-1, 0, 1], dy \<leftarrow> [-1, 0, 1], \<not> (dx = 0 \<and> dy = 0)]"

definition countMine :: "config \<Rightarrow> int \<Rightarrow> int \<Rightarrow> int \<Rightarrow> int \<times> int \<Rightarrow> int" where
  "countMine cfg x y mineCount d =
     (let nx = x + fst d; ny = y + snd d;
          eff_nx = js_rem (nx + MAP_WIDTH) MAP_WIDTH;
          eff_ny = js_rem (ny + MAP_HEIGHT) MAP_HEIGHT
      in if isMine cfg eff_nx eff_ny then mineCount + 1 else mineCount)"

definition calculateAdjacentMines :: "config \<Rightarrow> int \<Rightarrow> int \<Rightarrow> int" where
  "calculateAdjacentMines cfg x y =
     (if x < 0 \<or> x \<ge> MAP_WIDTH \<or> y < 0 \<or> y \<ge> MAP_HEIGHT then 0
      else foldl (countMine cfg x y) 0 offsets)"

section \<open>Persistence repository (db/repository.js, as listed in doc/chats.md)\<close>

text \<open>
  Table \<^verbatim>\<open>map_state(x, y, revealed, is_mine, adjacent_mines, flag_state)\<close> with primary
  key \<open>(x, y)\<close>: the rows in storage order, each a key and the other columns.
  Table \<^verbatim>\<open>players(player_id, score, last_seen)\<close> is a map from the key.
  SQL \<^verbatim>\<open>NULL\<close> is \<open>None\<close>. The columns are SQLite integers; a score is an unbounded
  integer here (one call moves it by at most the number of cells of the map).
\<close>

record cell_row =
  revealed :: int
  is_mine :: "int option"
  adjacent_mines :: "int option"
  flag_state :: int

record player_row =
  score :: int
  last_seen :: string

record database =
  map_state :: "((int \<times> int) \<times> cell_row) list"
  players :: "string \<rightharpoonup> player_row"

text \<open>The object \<^verbatim>\<open>{ x, y, is_mine, adjacent_mines }\<close> handed to the upsert.\<close>

record cell_data =
  cd_x :: int
  cd_y :: int
  cd_is_mine :: int
  cd_adjacent_mines :: "int option"

text \<open>\<^verbatim>\<open>SELECT * FROM map_state WHERE x = ? AND y = ?\<close>; no row is \<^verbatim>\<open>undefined\<close>.\<close>

definition getCellState :: "database \<Rightarrow> int \<Rightarrow> int \<Rightarrow> cell_row option" where
  "getCellState db x y = map_of (map_state db) (x, y)"

text \<open>
  One condition of the \<^verbatim>\<open>WHERE\<close> clause: \<^verbatim>\<open>x BETWEEN ? AND ?\<close> when the bounds are in
  order, \<^verbatim>\<open>(x >= ? OR x <= ?)\<close> otherwise.
\<close>

definition axis_condition :: "int \<Rightarrow> int \<Rightarrow> int \<Rightarrow> bool" where
  "axis_condition vMin vMax v =
     (if vMin \<le> vMax then vMin \<le> v \<and> v \<le> vMax else (v \<ge> vMin \<or> v \<le> vMax))"

definition getCellStatesInRegion ::
  "database \<Rightarrow> int \<Rightarrow> int \<Rightarrow> int \<Rightarrow> int \<Rightarrow> ((int \<times> int) \<times> cell_row) list" where
  "getCellStatesInRegion db xMin yMin xMax yMax =
     filter (\<lambda>row. axis_condition xMin xMax (fst (fst row)) \<and> axis_condition yMin yMax (snd (fst row)))
       (map_state db)"

text \<open>\<^verbatim>\<open>INSERT OR REPLACE INTO map_state (...) VALUES (?, ?, 1, ?, ?, 0)\<close>.\<close>

definition upsertRevealedCellState :: "database \<Rightarrow> cell_data \<Rightarrow> database" where
  "upsertRevealedCellState db cellData =
     db\<lparr>map_state :=
          AList.update (cd_x cellData, cd_y cellData)
            \<lparr>revealed = 1, is_mine = Some (cd_is_mine cellData),
             adjacent_mines = cd_adjacent_mines cellData, flag_state = 0\<rparr>
            (map_state db)\<rparr>"

text \<open>
  \<^verbatim>\<open>INSERT OR IGNORE INTO map_state (x, y, revealed, flag_state) VALUES (?, ?, 0, 1)\<close> when
  \<open>flagValue\<close> is 1, otherwise
  \<^verbatim>\<open>DELETE FROM map_state WHERE x = ? AND y = ? AND revealed = 0\<close>.
\<close>

definition setFlagState :: "database \<Rightarrow> int \<Rightarrow> int \<Rightarrow> int \<Rightarrow> database" where
  "setFlagState db x y flagValue =
     (if flagValue = 1 then
        (case map_of (map_state db) (x, y) of
           None \<Rightarrow>
             db\<lparr>map_state := map_state db @
                  [((x, y), \<lparr>revealed = 0, is_mine = None, adjacent_mines = None, flag_state = 1\<rparr>)]\<rparr>
         | Some r \<Rightarrow> db)
      else
        db\<lparr>map_state := filter (\<lambda>row. \<not> (fst row = (x, y) \<and> revealed (snd row) = 0)) (map_state db)\<rparr>)"

text \<open>\<^verbatim>\<open>UPDATE players SET score = score + ? WHERE player_id = ?\<close>.\<close>

definition updatePlayerScore :: "database \<Rightarrow> string \<Rightarrow> int \<Rightarrow> database" where
  "updatePlayerScore db playerId scoreDelta =
     (case players db playerId of
        None \<Rightarrow> db
      | Some p \<Rightarrow> db\<lparr>players := (players db)(playerId \<mapsto> p\<lparr>score := score p + scoreDelta\<rparr>)\<rparr>)"

text \<open>The region predicate as the specification words it.\<close>

definition spec_in_region :: "int \<Rightarrow> int \<Rightarrow> int \<Rightarrow> int \<Rightarrow> int \<Rightarrow> int \<Rightarrow> bool" where
  "spec_in_region xMin xMax yMin yMax x y =
     (((xMin \<le> xMax \<and> xMin \<le> x \<and> x \<le> xMax) \<or> (xMax < xMin \<and> (x \<ge> xMin \<or> x \<le> xMax))) \<and>
      ((yMin \<le> yMax \<and> yMin \<le> y \<and> y \<le> yMax) \<or> (yMax < yMin \<and> (y \<ge> yMin \<or> y \<le> yMax))))"

section \<open>Cell state engine (core/gameStateManager.js)\<close>

text \<open>
  The engine runs one call at a time: every \<^verbatim>\<open>await\<close> returns before the next statement,
  and no other call touches the database in between. Coordinates are integers, on which the
  arithmetic of JavaScript numbers is exact. A function returns its result together with
  the database it leaves.
\<close>

definition SCORE_REVEAL_SAFE :: int where
  "SCORE_REVEAL_SAFE = 1"

definition SCORE_HIT_MINE_PENALTY :: int where
  "SCORE_HIT_MINE_PENALTY = - 50"

definition STUN_DURATION_MS :: int where
  "STUN_DURATION_MS = 3000"

text \<open>The test \<^verbatim>\<open>state?.revealed === 1 || state?.flag_state === 1\<close>.\<close>

definition revealedOrFlagged :: "cell_row option \<Rightarrow> bool" where
  "revealedOrFlagged state =
     (case state of None \<Rightarrow> False | Some r \<Rightarrow> revealed r = 1 \<or> flag_state r = 1)"

text \<open>The test \<^verbatim>\<open>!neighborState || (neighborState.revealed !== 1 && neighborState.flag_state !== 1)\<close>.\<close>

definition neighborOpen :: "cell_row option \<Rightarrow> bool" where
  "neighborOpen neighborState =
     (case neighborState of None \<Rightarrow> True | Some r \<Rightarrow> revealed r \<noteq> 1 \<and> flag_state r \<noteq> 1)"

text \<open>
  The local variables of \<^verbatim>\<open>performSafeReveal\<close>. The set \<open>visited\<close> holds keys
  \<^verbatim>\<open>"x,y"\<close>, here the pairs themselves. The field \<open>peeked\<close> is not a variable of the
  source: it logs, in order, the cells whose state the neighbour loop reads from the
  database (line 131).
\<close>

record flood_state =
  cellsToReveal :: "cell_data list"
  queue :: "(int \<times> int) list"
  visited :: "(int \<times> int) set"
  scoreChange :: int
  peeked :: "(int \<times> int) list"

text \<open>The body of the two nested \<^verbatim>\<open>for\<close> loops, for one pair \<open>d = (dx, dy)\<close>.\<close>

definition visitNeighbor :: "database \<Rightarrow> int \<Rightarrow> int \<Rightarrow> flood_state \<Rightarrow> int \<times> int \<Rightarrow> flood_state" where
  "visitNeighbor db x y st d =
     (let nx = x + fst d; ny = y + snd d;
          eff_nx = js_rem (nx + MAP_WIDTH) MAP_WIDTH;
          eff_ny = js_rem (ny + MAP_HEIGHT) MAP_HEIGHT;
          neighborKey = (eff_nx, eff_ny)
      in
        if eff_nx \<ge> 0 \<and> eff_nx < MAP_WIDTH \<and> eff_ny \<ge> 0 \<and> eff_ny < MAP_HEIGHT
           \<and> neighborKey \<notin> visited st
        then
          let neighborState = getCellState db eff_nx eff_ny;
              st' = st\<lparr>peeked := peeked st @ [neighborKey]\<rparr>
          in
            if neighborOpen neighborState
            then st'\<lparr>queue := queue st' @ [neighborKey], visited := insert neighborKey (visited st')\<rparr>
            else st'
        else st)"

text \<open>
  One iteration of \<^verbatim>\<open>while (queue.length > 0)\<close>; the loop itself follows, as a partial
  function whose value \<open>None\<close> stands for a loop that does not end.
\<close>

definition floodStep :: "config \<Rightarrow> database \<Rightarrow> flood_state \<Rightarrow> flood_state" where
  "floodStep cfg db st =
     (case queue st of
        [] \<Rightarrow> st
      | c # rest \<Rightarrow>
          let x = fst c; y = snd c;
              st1 = st\<lparr>queue := rest\<rparr>;
              currentState = getCellState db x y
          in
            if revealedOrFlagged currentState then st1
            else
              let adjacentMines = calculateAdjacentMines cfg x y;
                  cellData = \<lparr>cd_x = x, cd_y = y, cd_is_mine = 0, cd_adjacent_mines = Some adjacentMines\<rparr>;
                  st2 = st1\<lparr>cellsToReveal := cellsToReveal st1 @ [cellData],
                            scoreChange := scoreChange st1 + SCORE_REVEAL_SAFE\<rparr>
              in if adjacentMines = 0 then foldl (visitNeighbor db x y) st2 offsets else st2)"

partial_function (option) floodLoop :: "config \<Rightarrow> database \<Rightarrow> flood_state \<Rightarrow> flood_state option" where
  "floodLoop cfg db st =
     (if length (queue st) > 0 then floodLoop cfg db (floodStep cfg db st) else Some st)"

declare floodLoop.simps [code]

text \<open>Lines 86 to 140: the initial state and the loop.\<close>

definition floodFill :: "config \<Rightarrow> database \<Rightarrow> int \<Rightarrow> int \<Rightarrow> flood_state option" where
  "floodFill cfg db startX startY =
     floodLoop cfg db
       \<lparr>cellsToReveal = [], queue = [(startX, startY)], visited = {(startX, startY)},
        scoreChange = 0, peeked = []\<rparr>"

text \<open>
  The writes after the loop. The upserts of \<^verbatim>\<open>Promise.all\<close> are issued in list order.
  The result is \<^verbatim>\<open>{ revealedCells, scoreDelta }\<close> and the database.
\<close>

definition performSafeReveal ::
  "config \<Rightarrow> database \<Rightarrow> int \<Rightarrow> int \<Rightarrow> string \<Rightarrow> ((cell_data list \<times> int) \<times> database) option" where
  "performSafeReveal cfg db startX startY playerId =
     (case floodFill cfg db startX startY of
        None \<Rightarrow> None
      | Some st \<Rightarrow>
          Some ((cellsToReveal st, scoreChange st),
            (if length (cellsToReveal st) > 0
             then updatePlayerScore (foldl upsertRevealedCellState db (cellsToReveal st))
                    playerId (scoreChange st)
             else db)))"

text \<open>A cell as sent to clients: \<^verbatim>\<open>{ x, y, state, value }\<close>.\<close>

record client_cell =
  c_x :: int
  c_y :: int
  c_state :: string
  c_value :: "int option"

datatype reveal_result =
    Ignored
  | Mine_hit (scoreDelta: int) (stunDurationMs: int) (revealedCells: "client_cell list")
  | Revealed (scoreDelta: int) (revealedCells: "client_cell list")

definition revealCell ::
  "config \<Rightarrow> database \<Rightarrow> string \<Rightarrow> int \<Rightarrow> int \<Rightarrow> (reveal_result \<times> database) option" where
  "revealCell cfg db playerId x y =
     (let existingState = getCellState db x y in
      if revealedOrFlagged existingState then Some (Ignored, db)
      else if isMine cfg x y then
        let cellData = \<lparr>cd_x = x, cd_y = y, cd_is_mine = 1, cd_adjacent_mines = None\<rparr>;
            db1 = upsertRevealedCellState db cellData;
            db2 = updatePlayerScore db1 playerId SCORE_HIT_MINE_PENALTY
        in Some (Mine_hit SCORE_HIT_MINE_PENALTY STUN_DURATION_MS
                   [\<lparr>c_x = x, c_y = y, c_state = ''mine'', c_value = Some (- 1)\<rparr>], db2)
      else
        (case performSafeReveal cfg db x y playerId of
           None \<Rightarrow> None
         | Some (res, db') \<Rightarrow>
             if length (fst res) = 0 then Some (Ignored, db')
             else Some (Revealed (snd res)
                    (map (\<lambda>cell. \<lparr>c_x = cd_x cell, c_y = cd_y cell, c_state = ''revealed'',
                                  c_value = cd_adjacent_mines cell\<rparr>) (fst res)), db')))"

datatype flag_result =
    Flag_ignored
  | Flagged (cellState: "int \<times> int \<times> string")
  | Unflagged (cellState: "int \<times> int \<times> string")

definition toggleFlag :: "database \<Rightarrow> string \<Rightarrow> int \<Rightarrow> int \<Rightarrow> flag_result \<times> database" where
  "toggleFlag db playerId x y =
     (let existingState = getCellState db x y in
      if (case existingState of None \<Rightarrow> False | Some r \<Rightarrow> revealed r = 1) then (Flag_ignored, db)
      else if (case existingState of None \<Rightarrow> False | Some r \<Rightarrow> flag_state r = 1)
        then (Unflagged (x, y, ''hidden''), setFlagState db x y 0)
        else (Flagged (x, y, ''flagged''), setFlagState db x y 1))"

text \<open>A finite sequence of engine operations, run in order on the database.\<close>

datatype action = Reveal string int int | ToggleFlag string int int

definition apply_action :: "config \<Rightarrow> database \<Rightarrow> action \<Rightarrow> database option" where
  "apply_action cfg db a =
     (case a of
        Reveal p x y \<Rightarrow> map_option snd (revealCell cfg db p x y)
      | ToggleFlag p x y \<Rightarrow> Some (snd (toggleFlag db p x y)))"

fun run_actions :: "config \<Rightarrow> database \<Rightarrow> action list \<Rightarrow> database option" where
  "run_actions cfg db [] = Some db"
| "run_actions cfg db (a # as) =
     (case apply_action cfg db a of None \<Rightarrow> None | Some db' \<Rightarrow> run_actions cfg db' as)"

section \<open>Action dispatcher (controllers/gameController.js)\<close>

text \<open>
  A value of a decoded JSON payload. A number is a double: a finite double is the rational
  it denotes; the comparisons of the dispatcher are against integer constants and exact.
\<close>

datatype js_number = Finite rat | NaN | PosInfinity | NegInfinity

datatype js_value = JNumber js_number | JString string | JBoolean bool | JNull | JUndefined | JObject

definition typeof :: "js_value \<Rightarrow> string" where
  "typeof v =
     (case v of JNumber n \<Rightarrow> ''number'' | JString s \<Rightarrow> ''string'' | JBoolean b \<Rightarrow> ''boolean''
      | JNull \<Rightarrow> ''object'' | JUndefined \<Rightarrow> ''undefined'' | JObject \<Rightarrow> ''object'')"

text \<open>
  \<^verbatim>\<open>v < c\<close> and \<^verbatim>\<open>v >= c\<close> for an integer constant \<open>c\<close>. Every comparison with
  \<^verbatim>\<open>NaN\<close> is false. The dispatcher reaches them for numbers only, after the
  \<^verbatim>\<open>typeof\<close> tests.
\<close>

definition js_lt :: "js_value \<Rightarrow> int \<Rightarrow> bool" where
  "js_lt v c =
     (case v of
        JNumber (Finite q) \<Rightarrow> q < of_int c
      | JNumber NegInfinity \<Rightarrow> True
      | _ \<Rightarrow> False)"

definition js_ge :: "js_value \<Rightarrow> int \<Rightarrow> bool" where
  "js_ge v c =
     (case v of
        JNumber (Finite q) \<Rightarrow> q \<ge> of_int c
      | JNumber PosInfinity \<Rightarrow> True
      | _ \<Rightarrow> False)"

text \<open>
  \<^verbatim>\<open>handleMessage\<close> for a message of type \<^verbatim>\<open>clickCell\<close> with payload \<open>{x, y}\<close>, up to
  the call of the engine (lines 141 to 169). \<open>session\<close> is the outcome of the two lookups
  at the head of the function (\<^verbatim>\<open>getPlayerIdByWs\<close>, then \<^verbatim>\<open>getPlayerById\<close>): the player id
  when both succeed; otherwise the message is dropped before the \<^verbatim>\<open>switch\<close>. The result says
  whether \<^verbatim>\<open>gameStateManager.revealCell(playerId, x, y)\<close> is called, and on what.
\<close>

datatype click_dispatch = Not_handled | Rejected | Calls_revealCell string js_value js_value

definition handleMessage_clickCell :: "string option \<Rightarrow> js_value \<Rightarrow> js_value \<Rightarrow> click_dispatch" where
  "handleMessage_clickCell session x y =
     (case session of
        None \<Rightarrow> Not_handled
      | Some playerId \<Rightarrow>
          if typeof x \<noteq> ''number'' \<or> typeof y \<noteq> ''number''
             \<or> js_lt x 0 \<or> js_ge x MAP_WIDTH \<or> js_lt y 0 \<or> js_ge y MAP_HEIGHT
          then Rejected
          else Calls_revealCell playerId x y)"

section \<open>Auxiliary notions for the statements and proofs\<close>

text \<open>\<^verbatim>\<open>Number.isInteger\<close>, which the source does not call.\<close>

definition is_integer :: "js_value \<Rightarrow> bool" where
  "is_integer v = (case v of JNumber (Finite q) \<Rightarrow> of_int \<lfloor>q\<rfloor> = q | _ \<Rightarrow> False)"

definition grid :: "(int \<times> int) set" where
  "grid = {0..<MAP_WIDTH} \<times> {0..<MAP_HEIGHT}"

definition cell_key :: "cell_data \<Rightarrow> int \<times> int" where
  "cell_key cd = (cd_x cd, cd_y cd)"

definition client_key :: "client_cell \<Rightarrow> int \<times> int" where
  "client_key c = (c_x c, c_y c)"

definition result_cells :: "reveal_result \<Rightarrow> client_cell list" where
  "result_cells res =
     (case res of Ignored \<Rightarrow> [] | Mine_hit d s cells \<Rightarrow> cells | Revealed d cells \<Rightarrow> cells)"

definition start_state :: "int \<Rightarrow> int \<Rightarrow> flood_state" where
  "start_state startX startY =
     \<lparr>cellsToReveal = [], queue = [(startX, startY)], visited = {(startX, startY)},
      scoreChange = 0, peeked = []\<rparr>"

definition closed_cell :: "database \<Rightarrow> int \<times> int \<Rightarrow> bool" where
  "closed_cell db c = revealedOrFlagged (getCellState db (fst c) (snd c))"

definition flood_measure :: "flood_state \<Rightarrow> nat" where
  "flood_measure st = card (grid - visited st) + length (queue st)"

text \<open>
  Loop invariants of the flood fill. Every cell in the result list or in the queue is in
  \<open>visited\<close>, without repetition, and \<open>visited\<close> stays inside the grid (but for the
  start cell); every cell of the result list was neither revealed nor flagged, and the
  score change counts the list; \<open>visited\<close> is the start cell and the peeked neighbours
  that were neither revealed nor flagged.
\<close>

definition inv_struct :: "int \<times> int \<Rightarrow> flood_state \<Rightarrow> bool" where
  "inv_struct start st \<longleftrightarrow>
     visited st \<subseteq> insert start grid \<and>
     set (map cell_key (cellsToReveal st)) \<union> set (queue st) \<subseteq> visited st \<and>
     distinct (map cell_key (cellsToReveal st) @ queue st)"

definition inv_cells :: "database \<Rightarrow> flood_state \<Rightarrow> bool" where
  "inv_cells db st \<longleftrightarrow>
     list_all (\<lambda>cd. \<not> closed_cell db (cell_key cd)) (cellsToReveal st) \<and>
     scoreChange st = int (length (cellsToReveal st))"

definition inv_peeked :: "database \<Rightarrow> int \<times> int \<Rightarrow> flood_state \<Rightarrow> bool" where
  "inv_peeked db start st \<longleftrightarrow>
     visited st = insert start (set (filter (\<lambda>c. \<not> closed_cell db c) (peeked st))) \<and>
     distinct (filter (\<lambda>c. \<not> closed_cell db c) (peeked st))"

text \<open>
  The wrap-aware neighbour of a cell of the grid, by the mathematical modulus, and two more
  invariants of the flood fill: every visited cell is in the result list or the queue, or
  was found revealed or flagged when popped; and every neighbour of a zero-adjacency cell of
  the result list is visited, or was peeked and found revealed or flagged.
\<close>

definition wrapped_neighbor :: "int \<times> int \<Rightarrow> int \<times> int \<Rightarrow> int \<times> int" where
  "wrapped_neighbor c d = ((fst c + fst d) mod MAP_WIDTH, (snd c + snd d) mod MAP_HEIGHT)"

definition inv_done :: "database \<Rightarrow> flood_state \<Rightarrow> bool" where
  "inv_done db st \<longleftrightarrow>
     visited st \<subseteq> set (map cell_key (cellsToReveal st)) \<union> set (queue st) \<union> {c. closed_cell db c}"

definition neighbor_covered :: "database \<Rightarrow> flood_state \<Rightarrow> int \<times> int \<Rightarrow> bool" where
  "neighbor_covered db st n \<longleftrightarrow>
     n \<in> visited st \<or> (n \<in> set (peeked st) \<and> closed_cell db n)"

definition cell_covered :: "config \<Rightarrow> database \<Rightarrow> flood_state \<Rightarrow> cell_data \<Rightarrow> bool" where
  "cell_covered cfg db st cd \<longleftrightarrow>
     cd_adjacent_mines cd = Some (calculateAdjacentMines cfg (cd_x cd) (cd_y cd)) \<and>
     (calculateAdjacentMines cfg (cd_x cd) (cd_y cd) = 0 \<longrightarrow>
        (\<forall>d \<in> set offsets. neighbor_covered db st (wrapped_neighbor (cell_key cd) d)))"

definition inv_cover :: "config \<Rightarrow> database \<Rightarrow> flood_state \<Rightarrow> bool" where
  "inv_cover cfg db st \<longleftrightarrow> (\<forall>cd \<in> set (cellsToReveal st). cell_covered cfg db st cd)"

section \<open>Fixtures\<close>

text \<open>
  A digest function under which exactly the cells of \<open>{0..3} \<times> {0..2}\<close> are safe, a
  database with a flag on \<open>(1, 0)\<close> and one player, and the final loop state of the
  flood fill from \<open>(1, 1)\<close> on them.
\<close>

definition demo_safe :: "string list" where
  "demo_safe = [''DEMOSEED01:0,0'', ''DEMOSEED01:0,1'', ''DEMOSEED01:0,2'',
                ''DEMOSEED01:1,0'', ''DEMOSEED01:1,1'', ''DEMOSEED01:1,2'',
                ''DEMOSEED01:2,0'', ''DEMOSEED01:2,1'', ''DEMOSEED01:2,2'',
                ''DEMOSEED01:3,0'', ''DEMOSEED01:3,1'', ''DEMOSEED01:3,2'']"

definition demo_hash :: "string \<Rightarrow> 64 word" where
  "demo_hash s = (if s \<in> set demo_safe then 0xFFFFFFFFFFFFFFFF else 0)"

definition demo_cfg :: config where
  "demo_cfg = \<lparr>MAP_SEED = ''DEMOSEED01'', sha256_u64 = demo_hash\<rparr>"

definition demo_flag_row :: cell_row where
  "demo_flag_row = \<lparr>revealed = 0, is_mine = None, adjacent_mines = None, flag_state = 1\<rparr>"

definition demo_player :: player_row where
  "demo_player = \<lparr>score = 10, last_seen = ''2025-03-29T10:00:00.000Z''\<rparr>"

definition demo_db :: database where
  "demo_db = \<lparr>map_state = [((1, 0), demo_flag_row)], players = [''p1'' \<mapsto> demo_player]\<rparr>"

definition demo_revealed_row :: cell_row where
  "demo_revealed_row = \<lparr>revealed = 1, is_mine = Some 0, adjacent_mines = Some 2, flag_state = 0\<rparr>"

definition region_db :: database where
  "region_db =
     \<lparr>map_state = [((1, 1), demo_revealed_row), ((639, 639), demo_revealed_row), ((100, 100), demo_flag_row)],
      players = Map.empty\<rparr>"

definition demo_actions :: "action list" where
  "demo_actions = [ToggleFlag ''p1'' 1 1, Reveal ''p1'' 1 1, ToggleFlag ''p1'' 100 100, Reveal ''p2'' 639 639]"

definition demo_cell :: "int \<Rightarrow> int \<Rightarrow> int \<Rightarrow> cell_data" where
  "demo_cell x y a = \<lparr>cd_x = x, cd_y = y, cd_is_mine = 0, cd_adjacent_mines = Some a\<rparr>"

definition demo_final :: flood_state where
  "demo_final =
     \<lparr>cellsToReveal =
        [demo_cell 1 1 0, demo_cell 0 0 5, demo_cell 0 1 3, demo_cell 0 2 5, demo_cell 1 2 3,
         demo_cell 2 0 3, demo_cell 2 1 0, demo_cell 2 2 3, demo_cell 3 0 5, demo_cell 3 1 3,
         demo_cell 3 2 5],
      queue = [],
      visited = {(3, 2), (3, 1), (3, 0), (2, 2), (2, 1), (2, 0), (1, 2), (0, 2), (0, 1), (0, 0), (1, 1)},
      scoreChange = 11,
      peeked = [(0, 0), (0, 1), (0, 2), (1, 0), (1, 2), (2, 0), (2, 1), (2, 2),
                (1, 0), (3, 0), (3, 1), (3, 2)]\<rparr>"

section \<open>The oracle: rounding to a double, wrapping\<close>

lemma bit_length_le_iff: "bit_length n \<le> k \<longleftrightarrow> n < 2 ^ k"
proof (induction n arbitrary: k rule: bit_length.induct)
  case (1 n)
  show ?case
  proof (cases "n = 0")
    case True
    then show ?thesis by (simp add: bit_length.simps)
  next
    case False
    show ?thesis
    proof (cases k)
      case 0
      with False show ?thesis by (simp add: bit_length.simps [of n])
    next
      case (Suc j)
      have "bit_length n \<le> Suc j \<longleftrightarrow> bit_length (n div 2) \<le> j"
        using False by (simp add: bit_length.simps [of n])
      also have "\<dots> \<longleftrightarrow> n div 2 < 2 ^ j"
        using "1.IH" [OF False] by simp
      also have "\<dots> \<longleftrightarrow> n < 2 ^ Suc j"
        by auto
      finally show ?thesis using Suc by simp
    qed
  qed
qed

lemma Number_of_BigInt_bounds:
  assumes lo: "2 ^ (53 + s) \<le> n" and hi: "n < 2 ^ (54 + s)"
  shows "Number_of_BigInt n =
      (if 2 ^ s < n mod 2 ^ Suc s \<or> (n mod 2 ^ Suc s = 2 ^ s \<and> odd (n div 2 ^ Suc s))
       then n div 2 ^ Suc s + 1 else n div 2 ^ Suc s) * 2 ^ Suc s"
proof -
  have "\<not> bit_length n \<le> 53 + s" using lo bit_length_le_iff [of n "53 + s"] by simp
  moreover have "bit_length n \<le> 54 + s" using hi bit_length_le_iff [of n "54 + s"] by simp
  ultimately have e: "bit_length n = 54 + s" by simp
  show ?thesis by (simp add: Number_of_BigInt_def Let_def e)
qed

lemma Number_of_BigInt_near:
  "n \<le> Number_of_BigInt n + n div 2 ^ 52 \<and> Number_of_BigInt n \<le> n + n div 2 ^ 52"
proof (cases "bit_length n \<le> 53")
  case True
  then show ?thesis by (simp add: Number_of_BigInt_def)
next
  case False
  define s where "s = bit_length n - 53"
  define q where "q = n div 2 ^ s"
  define r where "r = n mod 2 ^ s"
  have e: "bit_length n = 53 + s" using False by (simp add: s_def)
  have "\<not> bit_length n \<le> 52 + s" using e by simp
  then have lo: "2 ^ (52 + s) \<le> n" using bit_length_le_iff [of n "52 + s"] by simp
  have n: "n = q * 2 ^ s + r" unfolding q_def r_def by (rule div_mult_mod_eq [symmetric])
  have r: "r < 2 ^ s" by (simp add: r_def)
  have "2 ^ s * 2 ^ 52 \<le> n" using lo by (simp add: power_add mult.commute)
  then have d: "2 ^ s \<le> n div 2 ^ 52"
    by (simp add: less_eq_div_iff_mult_less_eq)
  have N: "Number_of_BigInt n = q * 2 ^ s \<or> Number_of_BigInt n = (q + 1) * 2 ^ s"
    using False by (simp add: Number_of_BigInt_def Let_def s_def [symmetric] q_def [symmetric])
  have "(q + 1) * 2 ^ s = q * 2 ^ s + 2 ^ s" by (simp add: algebra_simps)
  with N n r d show ?thesis by linarith
qed

lemma Number_of_BigInt_threshold:
  "Number_of_BigInt n < 2767011611056432640 \<longleftrightarrow> n \<le> 2767011611056432384"
proof -
  consider (low) "n < 2 ^ 61" | (mid) "2 ^ 61 \<le> n" "n < 2 ^ 62" | (high) "2 ^ 62 \<le> n"
    by linarith
  then show ?thesis
  proof cases
    case low
    define d where "d = n div 2 ^ 52"
    have "4503599627370496 * d \<le> n" by (simp add: d_def)
    moreover have "n < 2305843009213693952" using low by simp
    moreover note Number_of_BigInt_near [of n, unfolded d_def [symmetric]]
    ultimately show ?thesis by linarith
  next
    case high
    define d where "d = n div 2 ^ 52"
    have "4503599627370496 * d \<le> n" by (simp add: d_def)
    moreover have "4611686018427387904 \<le> n" using high by simp
    moreover note Number_of_BigInt_near [of n, unfolded d_def [symmetric]]
    ultimately show ?thesis by linarith
  next
    case mid
    define q where "q = n div 512"
    define r where "r = n mod 512"
    have n: "n = 512 * q + r" and r: "r < 512" by (simp_all add: q_def r_def)
    have N: "Number_of_BigInt n = (if 256 < r \<or> (r = 256 \<and> odd q) then q + 1 else q) * 512"
      using Number_of_BigInt_bounds [of 8 n] mid by (simp add: q_def r_def)
    show ?thesis
    proof (cases "q = 5404319552844594")
      case True
      then have "even q" by simp
      with True N n r show ?thesis by auto
    next
      case False
      with N n r show ?thesis by (auto split: if_splits)
    qed
  qed
qed

lemma isMine_iff:
  assumes "0 \<le> x" "x < MAP_WIDTH" "0 \<le> y" "y < MAP_HEIGHT"
  shows "isMine cfg x y \<longleftrightarrow>
     unat (sha256_u64 cfg (MAP_SEED cfg @ '':'' @ number_toString x @ '','' @ number_toString y))
       \<le> 2767011611056432384"
proof -
  define h where "h = unat (sha256_u64 cfg (MAP_SEED cfg @ '':'' @ number_toString x @ '','' @ number_toString y))"
  have "isMine cfg x y \<longleftrightarrow> (of_nat (Number_of_BigInt h) :: rat) / 2 ^ 64 < 5404319552844595 / 2 ^ 55"
    using assms by (simp add: isMine_def Let_def MINE_DENSITY_def h_def)
  also have "\<dots> \<longleftrightarrow> (of_nat (Number_of_BigInt h) :: rat) < of_nat 2767011611056432640"
    by (simp add: field_simps)
  also have "\<dots> \<longleftrightarrow> Number_of_BigInt h < 2767011611056432640"
    by (simp only: of_nat_less_iff)
  also have "\<dots> \<longleftrightarrow> h \<le> 2767011611056432384"
    by (rule Number_of_BigInt_threshold)
  finally show ?thesis by (simp add: h_def)
qed

lemma js_rem_wrap: "0 \<le> a \<Longrightarrow> 0 < b \<Longrightarrow> js_rem a b = a mod b"
  by (cases "a = 0") (simp_all add: js_rem_def)

lemma offsets_eq:
  "offsets = [(-1,-1), (-1,0), (-1,1), (0,-1), (0,1), (1,-1), (1,0), (1,1)]"
  by (simp add: offsets_def)

lemma offsets_set: "{-1, 0, 1} \<times> {-1, 0, 1} - {(0, 0)} = set offsets"
  by (auto simp: offsets_eq)

lemma countMine_wrap:
  assumes "0 \<le> x" "x < MAP_WIDTH" "0 \<le> y" "y < MAP_HEIGHT" "d \<in> set offsets"
  shows "countMine cfg x y n d =
     n + of_bool (isMine cfg ((x + fst d) mod MAP_WIDTH) ((y + snd d) mod MAP_HEIGHT))"
proof -
  have "- 1 \<le> fst d" "- 1 \<le> snd d" using assms(5) by (auto simp: offsets_eq)
  then have "0 \<le> x + fst d + MAP_WIDTH" "0 \<le> y + snd d + MAP_HEIGHT"
    using assms by (simp_all add: MAP_WIDTH_def MAP_HEIGHT_def)
  then have "js_rem (x + fst d + MAP_WIDTH) MAP_WIDTH = (x + fst d) mod MAP_WIDTH"
    "js_rem (y + snd d + MAP_HEIGHT) MAP_HEIGHT = (y + snd d) mod MAP_HEIGHT"
    by (simp_all add: js_rem_wrap MAP_WIDTH_def MAP_HEIGHT_def)
  then show ?thesis by (simp add: countMine_def Let_def)
qed

lemma foldl_countMine:
  assumes "0 \<le> x" "x < MAP_WIDTH" "0 \<le> y" "y < MAP_HEIGHT" "set ds \<subseteq> set offsets"
  shows "foldl (countMine cfg x y) n ds =
     n + (\<Sum>d\<leftarrow>ds. of_bool (isMine cfg ((x + fst d) mod MAP_WIDTH) ((y + snd d) mod MAP_HEIGHT)))"
  using assms(5)
proof (induction ds arbitrary: n)
  case Nil
  then show ?case by simp
next
  case (Cons d ds)
  then show ?case using countMine_wrap [OF assms(1-4), of d cfg n] by simp
qed

section \<open>The flood fill: one neighbour, one iteration, the loop\<close>

lemma finite_grid: "finite grid"
  by (simp add: grid_def)

lemma card_grid: "card grid = nat (MAP_WIDTH * MAP_HEIGHT)"
  by (simp add: grid_def MAP_WIDTH_def MAP_HEIGHT_def)

lemma neighborOpen_iff: "neighborOpen s \<longleftrightarrow> \<not> revealedOrFlagged s"
  by (simp add: neighborOpen_def revealedOrFlagged_def split: option.splits)

lemma visitNeighbor_cases:
  obtains (skip) "visitNeighbor db x y st d = st"
  | (closed) n where "n \<in> grid" "n \<notin> visited st" "revealedOrFlagged (getCellState db (fst n) (snd n))"
      "visitNeighbor db x y st d = st\<lparr>peeked := peeked st @ [n]\<rparr>"
  | (opened) n where "n \<in> grid" "n \<notin> visited st" "\<not> revealedOrFlagged (getCellState db (fst n) (snd n))"
      "visitNeighbor db x y st d =
         st\<lparr>peeked := peeked st @ [n], queue := queue st @ [n], visited := insert n (visited st)\<rparr>"
proof -
  define n where "n = (js_rem (x + fst d + MAP_WIDTH) MAP_WIDTH, js_rem (y + snd d + MAP_HEIGHT) MAP_HEIGHT)"
  show thesis
  proof (cases "n \<in> grid \<and> n \<notin> visited st")
    case False
    then have "visitNeighbor db x y st d = st"
      by (auto simp: visitNeighbor_def Let_def n_def grid_def)
    then show thesis by (rule skip)
  next
    case True
    then have g: "0 \<le> fst n \<and> fst n < MAP_WIDTH \<and> 0 \<le> snd n \<and> snd n < MAP_HEIGHT"
      by (auto simp: grid_def)
    show thesis
    proof (cases "revealedOrFlagged (getCellState db (fst n) (snd n))")
      case True
      have "visitNeighbor db x y st d = st\<lparr>peeked := peeked st @ [n]\<rparr>"
        using True \<open>n \<in> grid \<and> n \<notin> visited st\<close> g
        by (simp add: visitNeighbor_def Let_def n_def neighborOpen_iff)
      with True \<open>n \<in> grid \<and> n \<notin> visited st\<close> show thesis by (intro closed [of n]) simp_all
    next
      case False
      have "visitNeighbor db x y st d =
         st\<lparr>peeked := peeked st @ [n], queue := queue st @ [n], visited := insert n (visited st)\<rparr>"
        using False \<open>n \<in> grid \<and> n \<notin> visited st\<close> g
        by (simp add: visitNeighbor_def Let_def n_def neighborOpen_iff)
      with False \<open>n \<in> grid \<and> n \<notin> visited st\<close> show thesis by (intro opened [of n]) simp_all
    qed
  qed
qed

lemma visitNeighbor_rule:
  assumes "P st"
    and "\<And>n. n \<in> grid \<Longrightarrow> n \<notin> visited st \<Longrightarrow> revealedOrFlagged (getCellState db (fst n) (snd n))
           \<Longrightarrow> P (st\<lparr>peeked := peeked st @ [n]\<rparr>)"
    and "\<And>n. n \<in> grid \<Longrightarrow> n \<notin> visited st \<Longrightarrow> \<not> revealedOrFlagged (getCellState db (fst n) (snd n))
           \<Longrightarrow> P (st\<lparr>peeked := peeked st @ [n], queue := queue st @ [n], visited := insert n (visited st)\<rparr>)"
  shows "P (visitNeighbor db x y st d)"
proof (rule visitNeighbor_cases [of db x y st d])
  assume "visitNeighbor db x y st d = st"
  then show ?thesis using assms(1) by simp
next
  fix n
  assume "n \<in> grid" "n \<notin> visited st" "revealedOrFlagged (getCellState db (fst n) (snd n))"
    "visitNeighbor db x y st d = st\<lparr>peeked := peeked st @ [n]\<rparr>"
  then show ?thesis using assms(2) [of n] by simp
next
  fix n
  assume "n \<in> grid" "n \<notin> visited st" "\<not> revealedOrFlagged (getCellState db (fst n) (snd n))"
    "visitNeighbor db x y st d =
       st\<lparr>peeked := peeked st @ [n], queue := queue st @ [n], visited := insert n (visited st)\<rparr>"
  then show ?thesis using assms(3) [of n] by simp
qed

lemma foldl_visitNeighbor_rule:
  assumes "P st"
    and "\<And>s n. P s \<Longrightarrow> n \<in> grid \<Longrightarrow> n \<notin> visited s \<Longrightarrow> revealedOrFlagged (getCellState db (fst n) (snd n))
           \<Longrightarrow> P (s\<lparr>peeked := peeked s @ [n]\<rparr>)"
    and "\<And>s n. P s \<Longrightarrow> n \<in> grid \<Longrightarrow> n \<notin> visited s \<Longrightarrow> \<not> revealedOrFlagged (getCellState db (fst n) (snd n))
           \<Longrightarrow> P (s\<lparr>peeked := peeked s @ [n], queue := queue s @ [n], visited := insert n (visited s)\<rparr>)"
  shows "P (foldl (visitNeighbor db x y) st ds)"
  using assms(1)
proof (induction ds arbitrary: st)
  case Nil
  then show ?case by simp
next
  case (Cons d ds)
  have "P (visitNeighbor db x y st d)"
  proof (rule visitNeighbor_rule)
    show "P st" by (rule Cons.prems)
  next
    fix n
    assume "n \<in> grid" "n \<notin> visited st" "revealedOrFlagged (getCellState db (fst n) (snd n))"
    then show "P (st\<lparr>peeked := peeked st @ [n]\<rparr>)"
      by (rule assms(2) [OF Cons.prems])
  next
    fix n
    assume "n \<in> grid" "n \<notin> visited st" "\<not> revealedOrFlagged (getCellState db (fst n) (snd n))"
    then show "P (st\<lparr>peeked := peeked st @ [n], queue := queue st @ [n], visited := insert n (visited st)\<rparr>)"
      by (rule assms(3) [OF Cons.prems])
  qed
  then show ?case using Cons.IH by simp
qed

lemma floodStep_rule:
  assumes "P st" and "queue st \<noteq> []"
    and pop: "\<And>s c rest. P s \<Longrightarrow> queue s = c # rest \<Longrightarrow> revealedOrFlagged (getCellState db (fst c) (snd c))
           \<Longrightarrow> P (s\<lparr>queue := rest\<rparr>)"
    and take: "\<And>s c rest. P s \<Longrightarrow> queue s = c # rest \<Longrightarrow> \<not> revealedOrFlagged (getCellState db (fst c) (snd c))
           \<Longrightarrow> P (s\<lparr>queue := rest, cellsToReveal := cellsToReveal s @
                  [\<lparr>cd_x = fst c, cd_y = snd c, cd_is_mine = 0,
                    cd_adjacent_mines = Some (calculateAdjacentMines cfg (fst c) (snd c))\<rparr>],
                  scoreChange := scoreChange s + SCORE_REVEAL_SAFE\<rparr>)"
    and closed: "\<And>s n. P s \<Longrightarrow> n \<in> grid \<Longrightarrow> n \<notin> visited s \<Longrightarrow> revealedOrFlagged (getCellState db (fst n) (snd n))
           \<Longrightarrow> P (s\<lparr>peeked := peeked s @ [n]\<rparr>)"
    and opened: "\<And>s n. P s \<Longrightarrow> n \<in> grid \<Longrightarrow> n \<notin> visited s \<Longrightarrow> \<not> revealedOrFlagged (getCellState db (fst n) (snd n))
           \<Longrightarrow> P (s\<lparr>peeked := peeked s @ [n], queue := queue s @ [n], visited := insert n (visited s)\<rparr>)"
  shows "P (floodStep cfg db st)"
proof -
  obtain c rest where q: "queue st = c # rest" using assms(2) by (cases "queue st") auto
  show ?thesis
  proof (cases "revealedOrFlagged (getCellState db (fst c) (snd c))")
    case True
    then show ?thesis using pop [OF assms(1) q] q by (simp add: floodStep_def Let_def)
  next
    case False
    let ?s2 = "st\<lparr>queue := rest, cellsToReveal := cellsToReveal st @
                  [\<lparr>cd_x = fst c, cd_y = snd c, cd_is_mine = 0,
                    cd_adjacent_mines = Some (calculateAdjacentMines cfg (fst c) (snd c))\<rparr>],
                  scoreChange := scoreChange st + SCORE_REVEAL_SAFE\<rparr>"
    have s2: "P ?s2" using take [OF assms(1) q False] .
    have "P (foldl (visitNeighbor db (fst c) (snd c)) ?s2 offsets)"
      using s2 closed opened by (rule foldl_visitNeighbor_rule)
    with s2 False q show ?thesis by (auto simp add: floodStep_def Let_def)
  qed
qed

lemma flood_measure_visitNeighbor:
  "flood_measure (visitNeighbor db x y st d) = flood_measure st"
proof (rule visitNeighbor_cases [of db x y st d])
  fix n
  assume n: "n \<in> grid" "n \<notin> visited st"
    and v: "visitNeighbor db x y st d =
         st\<lparr>peeked := peeked st @ [n], queue := queue st @ [n], visited := insert n (visited st)\<rparr>"
  have "n \<in> grid - visited st" using n by simp
  moreover have "finite (grid - visited st)" using finite_grid by simp
  ultimately have "0 < card (grid - visited st)" by (auto simp: card_gt_0_iff)
  moreover have "grid - insert n (visited st) = (grid - visited st) - {n}" by auto
  ultimately show ?thesis
    using v \<open>n \<in> grid - visited st\<close> \<open>finite (grid - visited st)\<close>
    by (simp add: flood_measure_def)
qed (simp_all add: flood_measure_def)

lemma flood_measure_foldl:
  "flood_measure (foldl (visitNeighbor db x y) st ds) = flood_measure st"
  by (induction ds arbitrary: st) (simp_all add: flood_measure_visitNeighbor)

lemma flood_measure_step:
  assumes "queue st \<noteq> []"
  shows "flood_measure (floodStep cfg db st) < flood_measure st"
proof -
  obtain c rest where q: "queue st = c # rest" using assms by (cases "queue st") auto
  have "flood_measure (st\<lparr>queue := rest\<rparr>) < flood_measure st"
    using q by (simp add: flood_measure_def)
  then show ?thesis
    using q by (simp add: floodStep_def Let_def flood_measure_foldl) (simp add: flood_measure_def)
qed

lemma floodLoop_rule:
  assumes "P st" and "\<And>s. P s \<Longrightarrow> queue s \<noteq> [] \<Longrightarrow> P (floodStep cfg db s)"
  shows "\<exists>r. floodLoop cfg db st = Some r \<and> P r \<and> queue r = []"
  using assms(1)
proof (induction "flood_measure st" arbitrary: st rule: less_induct)
  case less
  show ?case
  proof (cases "queue st = []")
    case True
    then show ?thesis using less.prems by (subst floodLoop.simps) simp
  next
    case False
    have "\<exists>r. floodLoop cfg db (floodStep cfg db st) = Some r \<and> P r \<and> queue r = []"
      using False less.prems by (intro less.hyps flood_measure_step assms(2))
    then show ?thesis using False by (subst floodLoop.simps) simp
  qed
qed

section \<open>Evaluating the fixtures\<close>

lemma number_toString_demo:
  "number_toString 0 = ''0''" "number_toString 1 = ''1''" "number_toString 2 = ''2''"
  "number_toString 3 = ''3''" "number_toString 4 = ''4''" "number_toString 639 = ''639''"
  by (simp_all add: number_toString_def decimal.simps digit_char_def)

lemma isMine_demo:
  assumes "0 \<le> x" "x < MAP_WIDTH" "0 \<le> y" "y < MAP_HEIGHT"
  shows "isMine demo_cfg x y \<longleftrightarrow>
    ''DEMOSEED01:'' @ number_toString x @ '','' @ number_toString y \<notin> set demo_safe"
  using isMine_iff [OF assms, of demo_cfg] by (simp add: demo_cfg_def demo_hash_def)

lemma js_rem_demo:
  "js_rem 639 640 = 639" "js_rem 640 640 = 0" "js_rem 641 640 = 1" "js_rem 642 640 = 2"
  "js_rem 643 640 = 3" "js_rem 644 640 = 4"
  by (simp_all add: js_rem_def)

lemma adjacent_demo:
  "calculateAdjacentMines demo_cfg 1 1 = 0" "calculateAdjacentMines demo_cfg 2 1 = 0"
  "calculateAdjacentMines demo_cfg 0 0 = 5" "calculateAdjacentMines demo_cfg 0 1 = 3"
  "calculateAdjacentMines demo_cfg 0 2 = 5" "calculateAdjacentMines demo_cfg 1 2 = 3"
  "calculateAdjacentMines demo_cfg 2 0 = 3" "calculateAdjacentMines demo_cfg 2 2 = 3"
  "calculateAdjacentMines demo_cfg 3 0 = 5" "calculateAdjacentMines demo_cfg 3 1 = 3"
  "calculateAdjacentMines demo_cfg 3 2 = 5"
  by (simp_all add: calculateAdjacentMines_def countMine_def offsets_eq MAP_WIDTH_def MAP_HEIGHT_def
      js_rem_demo isMine_demo number_toString_demo demo_safe_def)

lemma floodLoop_continue:
  "queue st \<noteq> [] \<Longrightarrow> floodLoop cfg db st = floodLoop cfg db (floodStep cfg db st)"
  by (subst floodLoop.simps) simp

lemma floodLoop_finish: "queue st = [] \<Longrightarrow> floodLoop cfg db st = Some st"
  by (subst floodLoop.simps) simp

lemmas demo_simps = floodStep_def visitNeighbor_def offsets_eq
      getCellState_def demo_db_def demo_flag_row_def revealedOrFlagged_def neighborOpen_def adjacent_demo
      js_rem_def MAP_WIDTH_def MAP_HEIGHT_def SCORE_REVEAL_SAFE_def

lemma floodFill_demo: "floodFill demo_cfg demo_db 1 1 = Some demo_final"
  by (simp add: floodFill_def floodLoop_continue floodLoop_finish demo_simps Let_def demo_final_def demo_cell_def)

section \<open>Invariants of the flood fill\<close>

lemma floodFill_rule:
  assumes init: "P (start_state x y)"
    and pop: "\<And>s c rest. P s \<Longrightarrow> queue s = c # rest \<Longrightarrow> closed_cell db c \<Longrightarrow> P (s\<lparr>queue := rest\<rparr>)"
    and take: "\<And>s c rest. P s \<Longrightarrow> queue s = c # rest \<Longrightarrow> \<not> closed_cell db c
           \<Longrightarrow> P (s\<lparr>queue := rest, cellsToReveal := cellsToReveal s @
                  [\<lparr>cd_x = fst c, cd_y = snd c, cd_is_mine = 0,
                    cd_adjacent_mines = Some (calculateAdjacentMines cfg (fst c) (snd c))\<rparr>],
                  scoreChange := scoreChange s + SCORE_REVEAL_SAFE\<rparr>)"
    and closed: "\<And>s n. P s \<Longrightarrow> n \<in> grid \<Longrightarrow> n \<notin> visited s \<Longrightarrow> closed_cell db n
           \<Longrightarrow> P (s\<lparr>peeked := peeked s @ [n]\<rparr>)"
    and opened: "\<And>s n. P s \<Longrightarrow> n \<in> grid \<Longrightarrow> n \<notin> visited s \<Longrightarrow> \<not> closed_cell db n
           \<Longrightarrow> P (s\<lparr>peeked := peeked s @ [n], queue := queue s @ [n], visited := insert n (visited s)\<rparr>)"
  shows "\<exists>st. floodFill cfg db x y = Some st \<and> P st \<and> queue st = []"
  unfolding floodFill_def start_state_def [symmetric]
proof (rule floodLoop_rule [where P = P, OF init])
  fix s
  assume "P s" "queue s \<noteq> []"
  then show "P (floodStep cfg db s)"
  proof (rule floodStep_rule)
    fix s c rest
    assume "P s" "queue s = c # rest" "revealedOrFlagged (getCellState db (fst c) (snd c))"
    then show "P (s\<lparr>queue := rest\<rparr>)" by (intro pop) (simp_all add: closed_cell_def)
  next
    fix s c rest
    assume "P s" "queue s = c # rest" "\<not> revealedOrFlagged (getCellState db (fst c) (snd c))"
    then show "P (s\<lparr>queue := rest, cellsToReveal := cellsToReveal s @
                  [\<lparr>cd_x = fst c, cd_y = snd c, cd_is_mine = 0,
                    cd_adjacent_mines = Some (calculateAdjacentMines cfg (fst c) (snd c))\<rparr>],
                  scoreChange := scoreChange s + SCORE_REVEAL_SAFE\<rparr>)"
      by (intro take) (simp_all add: closed_cell_def)
  next
    fix s n
    assume "P s" "n \<in> grid" "n \<notin> visited s" "revealedOrFlagged (getCellState db (fst n) (snd n))"
    then show "P (s\<lparr>peeked := peeked s @ [n]\<rparr>)" by (intro closed) (simp_all add: closed_cell_def)
  next
    fix s n
    assume "P s" "n \<in> grid" "n \<notin> visited s" "\<not> revealedOrFlagged (getCellState db (fst n) (snd n))"
    then show "P (s\<lparr>peeked := peeked s @ [n], queue := queue s @ [n], visited := insert n (visited s)\<rparr>)"
      by (intro opened) (simp_all add: closed_cell_def)
  qed
qed

lemma floodFill_struct:
  "\<exists>st. floodFill cfg db x y = Some st \<and> inv_struct (x, y) st \<and> queue st = []"
proof (rule floodFill_rule)
  show "inv_struct (x, y) (start_state x y)"
    by (simp add: inv_struct_def start_state_def)
next
  fix s c rest
  assume "inv_struct (x, y) s" "queue s = c # rest"
  then show "inv_struct (x, y) (s\<lparr>queue := rest\<rparr>)"
    by (simp add: inv_struct_def)
next
  fix s c rest
  assume "inv_struct (x, y) s" "queue s = c # rest"
  then show "inv_struct (x, y) (s\<lparr>queue := rest, cellsToReveal := cellsToReveal s @
                  [\<lparr>cd_x = fst c, cd_y = snd c, cd_is_mine = 0,
                    cd_adjacent_mines = Some (calculateAdjacentMines cfg (fst c) (snd c))\<rparr>],
                  scoreChange := scoreChange s + SCORE_REVEAL_SAFE\<rparr>)"
    by (auto simp add: inv_struct_def cell_key_def)
next
  fix s n
  assume "inv_struct (x, y) s"
  then show "inv_struct (x, y) (s\<lparr>peeked := peeked s @ [n]\<rparr>)"
    by (simp add: inv_struct_def)
next
  fix s n
  assume "inv_struct (x, y) s" "n \<in> grid" "n \<notin> visited s"
  then show "inv_struct (x, y) (s\<lparr>peeked := peeked s @ [n], queue := queue s @ [n], visited := insert n (visited s)\<rparr>)"
    by (auto simp add: inv_struct_def)
qed

lemma floodFill_cells:
  "\<exists>st. floodFill cfg db x y = Some st \<and> inv_cells db st \<and> queue st = []"
proof (rule floodFill_rule)
  show "inv_cells db (start_state x y)"
    by (simp add: inv_cells_def start_state_def)
next
  fix s c rest
  assume "inv_cells db s"
  then show "inv_cells db (s\<lparr>queue := rest\<rparr>)"
    by (simp add: inv_cells_def)
next
  fix s c rest
  assume "inv_cells db s" "\<not> closed_cell db c"
  then show "inv_cells db (s\<lparr>queue := rest, cellsToReveal := cellsToReveal s @
                  [\<lparr>cd_x = fst c, cd_y = snd c, cd_is_mine = 0,
                    cd_adjacent_mines = Some (calculateAdjacentMines cfg (fst c) (snd c))\<rparr>],
                  scoreChange := scoreChange s + SCORE_REVEAL_SAFE\<rparr>)"
    by (simp add: inv_cells_def cell_key_def SCORE_REVEAL_SAFE_def)
next
  fix s n
  assume "inv_cells db s"
  then show "inv_cells db (s\<lparr>peeked := peeked s @ [n]\<rparr>)"
    by (simp add: inv_cells_def)
next
  fix s n
  assume "inv_cells db s"
  then show "inv_cells db (s\<lparr>peeked := peeked s @ [n], queue := queue s @ [n], visited := insert n (visited s)\<rparr>)"
    by (simp add: inv_cells_def)
qed

lemma floodFill_peeked:
  "\<exists>st. floodFill cfg db x y = Some st \<and> inv_peeked db (x, y) st \<and> queue st = []"
proof (rule floodFill_rule)
  show "inv_peeked db (x, y) (start_state x y)"
    by (simp add: inv_peeked_def start_state_def)
next
  fix s c rest
  assume "inv_peeked db (x, y) s"
  then show "inv_peeked db (x, y) (s\<lparr>queue := rest\<rparr>)"
    by (simp add: inv_peeked_def)
next
  fix s c rest
  assume "inv_peeked db (x, y) s"
  then show "inv_peeked db (x, y) (s\<lparr>queue := rest, cellsToReveal := cellsToReveal s @
                  [\<lparr>cd_x = fst c, cd_y = snd c, cd_is_mine = 0,
                    cd_adjacent_mines = Some (calculateAdjacentMines cfg (fst c) (snd c))\<rparr>],
                  scoreChange := scoreChange s + SCORE_REVEAL_SAFE\<rparr>)"
    by (simp add: inv_peeked_def)
next
  fix s n
  assume "inv_peeked db (x, y) s" "closed_cell db n"
  then show "inv_peeked db (x, y) (s\<lparr>peeked := peeked s @ [n]\<rparr>)"
    by (simp add: inv_peeked_def)
next
  fix s n
  assume "inv_peeked db (x, y) s" "n \<notin> visited s" "\<not> closed_cell db n"
  then show "inv_peeked db (x, y) (s\<lparr>peeked := peeked s @ [n], queue := queue s @ [n], visited := insert n (visited s)\<rparr>)"
    by (auto simp add: inv_peeked_def)
qed

lemma floodFill_total:
  obtains st where "floodFill cfg db x y = Some st" "inv_struct (x, y) st" "inv_cells db st"
    "inv_peeked db (x, y) st" "queue st = []"
  using floodFill_struct [of cfg db x y] floodFill_cells [of cfg db x y] floodFill_peeked [of cfg db x y]
  by auto

section \<open>The flood fill reaches every neighbour of a zero-adjacency cell\<close>

lemma neighbor_key_wrap:
  assumes "c \<in> grid" "d \<in> set offsets"
  shows "(js_rem (fst c + fst d + MAP_WIDTH) MAP_WIDTH, js_rem (snd c + snd d + MAP_HEIGHT) MAP_HEIGHT)
           = wrapped_neighbor c d"
    and "wrapped_neighbor c d \<in> grid"
proof -
  have c: "0 \<le> fst c" "fst c < MAP_WIDTH" "0 \<le> snd c" "snd c < MAP_HEIGHT"
    using assms(1) by (auto simp: grid_def)
  have "- 1 \<le> fst d" "- 1 \<le> snd d" using assms(2) by (auto simp: offsets_eq)
  then have "0 \<le> fst c + fst d + MAP_WIDTH" "0 \<le> snd c + snd d + MAP_HEIGHT"
    using c by (simp_all add: MAP_WIDTH_def MAP_HEIGHT_def)
  then show "(js_rem (fst c + fst d + MAP_WIDTH) MAP_WIDTH, js_rem (snd c + snd d + MAP_HEIGHT) MAP_HEIGHT)
           = wrapped_neighbor c d"
    by (simp add: js_rem_wrap MAP_WIDTH_def MAP_HEIGHT_def wrapped_neighbor_def)
  show "wrapped_neighbor c d \<in> grid"
    by (simp add: wrapped_neighbor_def grid_def MAP_WIDTH_def MAP_HEIGHT_def)
qed

lemma visitNeighbor_eq:
  assumes "(u, v) \<in> grid" "d \<in> set offsets"
  shows "visitNeighbor db u v s d =
     (if wrapped_neighbor (u, v) d \<in> visited s then s
      else if neighborOpen (getCellState db (fst (wrapped_neighbor (u, v) d)) (snd (wrapped_neighbor (u, v) d)))
      then s\<lparr>peeked := peeked s @ [wrapped_neighbor (u, v) d],
             queue := queue s @ [wrapped_neighbor (u, v) d],
             visited := insert (wrapped_neighbor (u, v) d) (visited s)\<rparr>
      else s\<lparr>peeked := peeked s @ [wrapped_neighbor (u, v) d]\<rparr>)"
proof -
  define n where "n = wrapped_neighbor (u, v) d"
  have k: "(js_rem (u + fst d + MAP_WIDTH) MAP_WIDTH, js_rem (v + snd d + MAP_HEIGHT) MAP_HEIGHT) = n"
    using neighbor_key_wrap(1) [OF assms] by (simp add: n_def)
  then have f: "js_rem (u + fst d + MAP_WIDTH) MAP_WIDTH = fst n"
    "js_rem (v + snd d + MAP_HEIGHT) MAP_HEIGHT = snd n" by auto
  have "n \<in> grid" using neighbor_key_wrap(2) [OF assms] by (simp add: n_def)
  then have g: "0 \<le> fst n" "fst n < MAP_WIDTH" "0 \<le> snd n" "snd n < MAP_HEIGHT"
    by (auto simp: grid_def)
  show ?thesis
    unfolding n_def [symmetric]
    using g by (simp add: visitNeighbor_def Let_def f)
qed

lemma foldl_visitNeighbor_mono:
  "visited s \<subseteq> visited (foldl (visitNeighbor db u v) s ds) \<and>
   set (peeked s) \<subseteq> set (peeked (foldl (visitNeighbor db u v) s ds)) \<and>
   cellsToReveal (foldl (visitNeighbor db u v) s ds) = cellsToReveal s"
proof (rule foldl_visitNeighbor_rule
    [where P = "\<lambda>t. visited s \<subseteq> visited t \<and> set (peeked s) \<subseteq> set (peeked t) \<and> cellsToReveal t = cellsToReveal s"])
  show "visited s \<subseteq> visited s \<and> set (peeked s) \<subseteq> set (peeked s) \<and> cellsToReveal s = cellsToReveal s"
    by simp
next
  fix t n
  assume "visited s \<subseteq> visited t \<and> set (peeked s) \<subseteq> set (peeked t) \<and> cellsToReveal t = cellsToReveal s"
  then show "visited s \<subseteq> visited (t\<lparr>peeked := peeked t @ [n]\<rparr>) \<and>
     set (peeked s) \<subseteq> set (peeked (t\<lparr>peeked := peeked t @ [n]\<rparr>)) \<and>
     cellsToReveal (t\<lparr>peeked := peeked t @ [n]\<rparr>) = cellsToReveal s"
    by auto
next
  fix t n
  assume "visited s \<subseteq> visited t \<and> set (peeked s) \<subseteq> set (peeked t) \<and> cellsToReveal t = cellsToReveal s"
  then show "visited s \<subseteq> visited (t\<lparr>peeked := peeked t @ [n], queue := queue t @ [n], visited := insert n (visited t)\<rparr>) \<and>
     set (peeked s) \<subseteq> set (peeked (t\<lparr>peeked := peeked t @ [n], queue := queue t @ [n], visited := insert n (visited t)\<rparr>)) \<and>
     cellsToReveal (t\<lparr>peeked := peeked t @ [n], queue := queue t @ [n], visited := insert n (visited t)\<rparr>) = cellsToReveal s"
    by auto
qed

lemma neighbor_covered_mono:
  "neighbor_covered db s n \<Longrightarrow> visited s \<subseteq> visited t \<Longrightarrow> set (peeked s) \<subseteq> set (peeked t)
     \<Longrightarrow> neighbor_covered db t n"
  unfolding neighbor_covered_def by blast

lemma cell_covered_mono:
  assumes "cell_covered cfg db s cd" "visited s \<subseteq> visited t" "set (peeked s) \<subseteq> set (peeked t)"
  shows "cell_covered cfg db t cd"
  using assms neighbor_covered_mono [of db s _ t] unfolding cell_covered_def by blast

lemma visitNeighbor_covers:
  assumes "(u, v) \<in> grid" "d \<in> set offsets"
  shows "neighbor_covered db (visitNeighbor db u v s d) (wrapped_neighbor (u, v) d)"
  unfolding visitNeighbor_eq [OF assms]
  by (simp add: neighbor_covered_def closed_cell_def neighborOpen_iff)

lemma foldl_visitNeighbor_cover:
  assumes "(u, v) \<in> grid" "set ds \<subseteq> set offsets" "d \<in> set ds"
  shows "neighbor_covered db (foldl (visitNeighbor db u v) s ds) (wrapped_neighbor (u, v) d)"
  using assms(2,3)
proof (induction ds arbitrary: s)
  case Nil
  then show ?case by simp
next
  case (Cons e es)
  let ?t = "visitNeighbor db u v s e"
  show ?case
  proof (cases "d = e")
    case True
    have e: "e \<in> set offsets" using Cons.prems by simp
    have "neighbor_covered db ?t (wrapped_neighbor (u, v) d)"
      unfolding True by (rule visitNeighbor_covers [OF assms(1) e])
    then have "neighbor_covered db (foldl (visitNeighbor db u v) ?t es) (wrapped_neighbor (u, v) d)"
    proof (rule neighbor_covered_mono)
      show "visited ?t \<subseteq> visited (foldl (visitNeighbor db u v) ?t es)"
        using foldl_visitNeighbor_mono [of ?t db u v es] by simp
      show "set (peeked ?t) \<subseteq> set (peeked (foldl (visitNeighbor db u v) ?t es))"
        using foldl_visitNeighbor_mono [of ?t db u v es] by simp
    qed
    then show ?thesis by simp
  next
    case False
    then have "d \<in> set es" using Cons.prems by simp
    then show ?thesis using Cons.IH [of ?t] Cons.prems by simp
  qed
qed

lemma floodStep_struct:
  assumes "inv_struct start s" "queue s \<noteq> []"
  shows "inv_struct start (floodStep cfg db s)"
  using assms
proof (rule floodStep_rule [where P = "inv_struct start"])
  fix s c rest
  assume "inv_struct start s" "queue s = c # rest"
  then show "inv_struct start (s\<lparr>queue := rest\<rparr>)"
    by (simp add: inv_struct_def)
next
  fix s c rest
  assume "inv_struct start s" "queue s = c # rest"
  then show "inv_struct start (s\<lparr>queue := rest, cellsToReveal := cellsToReveal s @
                  [\<lparr>cd_x = fst c, cd_y = snd c, cd_is_mine = 0,
                    cd_adjacent_mines = Some (calculateAdjacentMines cfg (fst c) (snd c))\<rparr>],
                  scoreChange := scoreChange s + SCORE_REVEAL_SAFE\<rparr>)"
    by (auto simp add: inv_struct_def cell_key_def)
next
  fix s n
  assume "inv_struct start s"
  then show "inv_struct start (s\<lparr>peeked := peeked s @ [n]\<rparr>)"
    by (simp add: inv_struct_def)
next
  fix s n
  assume "inv_struct start s" "n \<in> grid" "n \<notin> visited s"
  then show "inv_struct start (s\<lparr>peeked := peeked s @ [n], queue := queue s @ [n], visited := insert n (visited s)\<rparr>)"
    by (auto simp add: inv_struct_def)
qed

lemma floodFill_done:
  "\<exists>st. floodFill cfg db x y = Some st \<and> inv_done db st \<and> queue st = []"
proof (rule floodFill_rule)
  show "inv_done db (start_state x y)"
    by (simp add: inv_done_def start_state_def)
next
  fix s c rest
  assume "inv_done db s" "queue s = c # rest" "closed_cell db c"
  then show "inv_done db (s\<lparr>queue := rest\<rparr>)"
    by (auto simp add: inv_done_def)
next
  fix s c rest
  assume "inv_done db s" "queue s = c # rest"
  then show "inv_done db (s\<lparr>queue := rest, cellsToReveal := cellsToReveal s @
                  [\<lparr>cd_x = fst c, cd_y = snd c, cd_is_mine = 0,
                    cd_adjacent_mines = Some (calculateAdjacentMines cfg (fst c) (snd c))\<rparr>],
                  scoreChange := scoreChange s + SCORE_REVEAL_SAFE\<rparr>)"
    by (auto simp add: inv_done_def cell_key_def)
next
  fix s n
  assume "inv_done db s"
  then show "inv_done db (s\<lparr>peeked := peeked s @ [n]\<rparr>)"
    by (simp add: inv_done_def)
next
  fix s n
  assume "inv_done db s"
  then show "inv_done db (s\<lparr>peeked := peeked s @ [n], queue := queue s @ [n], visited := insert n (visited s)\<rparr>)"
    by (auto simp add: inv_done_def)
qed

lemma floodStep_cover:
  assumes s: "inv_struct start s" and g: "start \<in> grid" and c: "inv_cover cfg db s"
    and q: "queue s \<noteq> []"
  shows "inv_cover cfg db (floodStep cfg db s)"
proof -
  obtain k rest where qs: "queue s = k # rest" using q by (cases "queue s") auto
  have kg: "(fst k, snd k) \<in> grid"
    using s g qs unfolding inv_struct_def by auto
  show ?thesis
  proof (cases "revealedOrFlagged (getCellState db (fst k) (snd k))")
    case True
    then have "floodStep cfg db s = s\<lparr>queue := rest\<rparr>"
      using qs by (simp add: floodStep_def Let_def)
    then show ?thesis
      using c by (simp add: inv_cover_def cell_covered_def neighbor_covered_def)
  next
    case False
    define a where "a = calculateAdjacentMines cfg (fst k) (snd k)"
    define cd where "cd = \<lparr>cd_x = fst k, cd_y = snd k, cd_is_mine = 0, cd_adjacent_mines = Some a\<rparr>"
    define s2 where "s2 = s\<lparr>queue := rest, cellsToReveal := cellsToReveal s @ [cd],
                            scoreChange := scoreChange s + SCORE_REVEAL_SAFE\<rparr>"
    define t where "t = foldl (visitNeighbor db (fst k) (snd k)) s2 offsets"
    define r where "r = floodStep cfg db s"
    have fs: "r = (if a = 0 then t else s2)"
      using qs False by (simp add: r_def floodStep_def Let_def a_def cd_def s2_def t_def)
    have m: "visited s2 \<subseteq> visited t" "set (peeked s2) \<subseteq> set (peeked t)"
      "cellsToReveal t = cellsToReveal s2"
      using foldl_visitNeighbor_mono [of s2 db "fst k" "snd k" offsets] by (simp_all add: t_def)
    have vs: "visited s2 = visited s" "peeked s2 = peeked s" "cellsToReveal s2 = cellsToReveal s @ [cd]"
      by (simp_all add: s2_def)
    have cells: "cellsToReveal r = cellsToReveal s @ [cd]"
      and mono: "visited s \<subseteq> visited r" "set (peeked s) \<subseteq> set (peeked r)"
      using fs m vs by (auto split: if_splits)
    have ck: "cell_key cd = (fst k, snd k)" by (simp add: cd_def cell_key_def)
    have old: "cell_covered cfg db r c'" if "c' \<in> set (cellsToReveal s)" for c'
    proof (rule cell_covered_mono [OF _ mono])
      show "cell_covered cfg db s c'" using c that by (simp add: inv_cover_def)
    qed
    have adj: "cd_adjacent_mines cd = Some (calculateAdjacentMines cfg (cd_x cd) (cd_y cd))"
      by (simp add: cd_def a_def)
    have cov: "neighbor_covered db r (wrapped_neighbor (cell_key cd) d)"
      if "calculateAdjacentMines cfg (cd_x cd) (cd_y cd) = 0" "d \<in> set offsets" for d
    proof -
      have "a = 0" using that(1) by (simp add: cd_def a_def)
      then have "r = t" using fs by simp
      then show ?thesis
        unfolding ck t_def
        using foldl_visitNeighbor_cover [OF kg subset_refl that(2), of db s2] by simp
    qed
    have new: "cell_covered cfg db r cd"
      unfolding cell_covered_def using adj cov by blast
    have "\<forall>c' \<in> set (cellsToReveal r). cell_covered cfg db r c'"
      unfolding cells using old new by simp
    then show ?thesis by (simp add: inv_cover_def r_def)
  qed
qed

lemma floodFill_cover:
  assumes "(x, y) \<in> grid"
  shows "\<exists>st. floodFill cfg db x y = Some st \<and> (inv_struct (x, y) st \<and> inv_cover cfg db st) \<and> queue st = []"
  unfolding floodFill_def start_state_def [symmetric]
proof (rule floodLoop_rule [where P = "\<lambda>s. inv_struct (x, y) s \<and> inv_cover cfg db s"])
  show "inv_struct (x, y) (start_state x y) \<and> inv_cover cfg db (start_state x y)"
    by (simp add: inv_struct_def inv_cover_def start_state_def)
next
  fix s
  assume "inv_struct (x, y) s \<and> inv_cover cfg db s" "queue s \<noteq> []"
  then show "inv_struct (x, y) (floodStep cfg db s) \<and> inv_cover cfg db (floodStep cfg db s)"
    using floodStep_struct [of "(x, y)" s cfg db] floodStep_cover [of "(x, y)" s cfg db] assms
    by simp
qed

section \<open>Effects of the engine on the database\<close>

lemma players_upsert: "players (upsertRevealedCellState db cd) = players db"
  by (simp add: upsertRevealedCellState_def)

lemma players_foldl_upsert: "players (foldl upsertRevealedCellState db cs) = players db"
  by (induction cs arbitrary: db) (simp_all add: players_upsert)

lemma getCellState_upsert:
  "getCellState (upsertRevealedCellState db cd) x y =
     (if (x, y) = cell_key cd
      then Some \<lparr>revealed = 1, is_mine = Some (cd_is_mine cd),
                 adjacent_mines = cd_adjacent_mines cd, flag_state = 0\<rparr>
      else getCellState db x y)"
  by (simp add: upsertRevealedCellState_def getCellState_def cell_key_def update_conv')

lemma getCellState_foldl_upsert:
  "(x, y) \<notin> set (map cell_key cs) \<Longrightarrow>
     getCellState (foldl upsertRevealedCellState db cs) x y = getCellState db x y"
  by (induction cs arbitrary: db) (auto simp add: getCellState_upsert)

lemma getCellState_updatePlayerScore:
  "getCellState (updatePlayerScore db p d) x y = getCellState db x y"
  by (simp add: updatePlayerScore_def getCellState_def split: option.splits)

lemma players_updatePlayerScore:
  "players db p = Some pr \<Longrightarrow>
     players (updatePlayerScore db p d) = (players db)(p \<mapsto> pr\<lparr>score := score pr + d\<rparr>)"
  by (simp add: updatePlayerScore_def)

lemma performSafeReveal_eq:
  assumes "floodFill cfg db x y = Some st"
  shows "performSafeReveal cfg db x y p =
     Some ((cellsToReveal st, scoreChange st),
       (if cellsToReveal st \<noteq> []
        then updatePlayerScore (foldl upsertRevealedCellState db (cellsToReveal st)) p (scoreChange st)
        else db))"
  using assms by (simp add: performSafeReveal_def)

lemma revealCell_closed:
  "closed_cell db (x, y) \<Longrightarrow> revealCell cfg db p x y = Some (Ignored, db)"
  by (simp add: revealCell_def closed_cell_def)

lemma revealCell_mine:
  assumes "\<not> closed_cell db (x, y)" "isMine cfg x y"
  shows "revealCell cfg db p x y =
     Some (Mine_hit SCORE_HIT_MINE_PENALTY STUN_DURATION_MS
             [\<lparr>c_x = x, c_y = y, c_state = ''mine'', c_value = Some (- 1)\<rparr>],
           updatePlayerScore
             (upsertRevealedCellState db \<lparr>cd_x = x, cd_y = y, cd_is_mine = 1, cd_adjacent_mines = None\<rparr>)
             p SCORE_HIT_MINE_PENALTY)"
  using assms by (simp add: revealCell_def closed_cell_def Let_def)

lemma revealCell_safe:
  assumes "\<not> closed_cell db (x, y)" "\<not> isMine cfg x y" "floodFill cfg db x y = Some st"
  shows "revealCell cfg db p x y =
     (if cellsToReveal st = [] then Some (Ignored, db)
      else Some (Revealed (scoreChange st)
             (map (\<lambda>cell. \<lparr>c_x = cd_x cell, c_y = cd_y cell, c_state = ''revealed'',
                           c_value = cd_adjacent_mines cell\<rparr>) (cellsToReveal st)),
           updatePlayerScore (foldl upsertRevealedCellState db (cellsToReveal st)) p (scoreChange st)))"
  using assms by (simp add: revealCell_def closed_cell_def Let_def performSafeReveal_eq [OF assms(3)])

lemma revealCell_frame:
  assumes "closed_cell db k"
  shows "\<exists>res db'. revealCell cfg db p x y = Some (res, db') \<and>
           getCellState db' (fst k) (snd k) = getCellState db (fst k) (snd k) \<and>
           k \<notin> set (map client_key (result_cells res))"
proof (cases "closed_cell db (x, y)")
  case True
  then show ?thesis by (simp add: revealCell_closed result_cells_def)
next
  case False
  then have ne: "k \<noteq> (x, y)" using assms by auto
  show ?thesis
  proof (cases "isMine cfg x y")
    case True
    show ?thesis
      using ne by (cases k) (auto simp add: revealCell_mine [OF False True] result_cells_def client_key_def
          getCellState_updatePlayerScore getCellState_upsert cell_key_def)
  next
    case safe: False
    obtain st where st: "floodFill cfg db x y = Some st" "inv_cells db st"
      by (rule floodFill_total)
    have "\<forall>cd \<in> set (cellsToReveal st). \<not> closed_cell db (cell_key cd)"
      using st(2) by (simp add: inv_cells_def list_all_iff)
    then have k: "k \<notin> set (map cell_key (cellsToReveal st))" using assms by auto
    then have "getCellState (foldl upsertRevealedCellState db (cellsToReveal st)) (fst k) (snd k)
        = getCellState db (fst k) (snd k)"
      using getCellState_foldl_upsert [of "fst k" "snd k" "cellsToReveal st" db] by simp
    moreover have "k \<notin> set (map client_key (map (\<lambda>cell. \<lparr>c_x = cd_x cell, c_y = cd_y cell,
        c_state = ''revealed'', c_value = cd_adjacent_mines cell\<rparr>) (cellsToReveal st)))"
      using k by (auto simp add: client_key_def cell_key_def)
    ultimately show ?thesis
      by (simp add: revealCell_safe [OF False safe st(1)] result_cells_def
          getCellState_updatePlayerScore del: set_map map_map)
  qed
qed

section \<open>Dispatcher, flags, regions, sequences\<close>

lemma map_of_filter_keep:
  "map_of t k = Some r \<Longrightarrow> P (k, r) \<Longrightarrow> map_of (filter P t) k = Some r"
  by (induction t) (auto split: if_splits)

lemma filter_absent:
  "map_of t k = None \<Longrightarrow> filter (\<lambda>row. \<not> (fst row = k \<and> Q (snd row))) t = t"
  by (induction t) (auto split: if_splits)

lemma toggleFlag_revealed:
  assumes "getCellState db x y = Some r" "revealed r = 1"
  shows "toggleFlag db p x y = (Flag_ignored, db)"
  using assms by (simp add: toggleFlag_def)

lemma toggleFlag_frame:
  assumes "getCellState db x y = Some r" "revealed r = 1"
  shows "getCellState (snd (toggleFlag db p tx ty)) x y = Some r"
proof (cases "(tx, ty) = (x, y)")
  case True
  then show ?thesis using assms toggleFlag_revealed [OF assms, of p] by simp
next
  case False
  have a: "getCellState (setFlagState db tx ty 1) x y = Some r"
    using assms(1) by (simp add: setFlagState_def getCellState_def split: option.splits)
  have "map_of (filter (\<lambda>row. \<not> (fst row = (tx, ty) \<and> revealed (snd row) = 0)) (map_state db)) (x, y) = Some r"
    using assms by (intro map_of_filter_keep) (simp_all add: getCellState_def)
  then have b: "getCellState (setFlagState db tx ty 0) x y = Some r"
    by (simp add: setFlagState_def getCellState_def)
  show ?thesis using a b assms(1) by (simp add: toggleFlag_def Let_def)
qed

lemma axis_condition_spec:
  "axis_condition xMin xMax x \<and> axis_condition yMin yMax y \<longleftrightarrow> spec_in_region xMin xMax yMin yMax x y"
  by (auto simp add: axis_condition_def spec_in_region_def)

lemma apply_action_frame:
  assumes "getCellState db x y = Some r" "revealed r = 1"
  shows "\<exists>db'. apply_action cfg db a = Some db' \<and> getCellState db' x y = Some r"
proof (cases a)
  case (Reveal p ax ay)
  have "closed_cell db (x, y)" using assms by (simp add: closed_cell_def revealedOrFlagged_def)
  from revealCell_frame [OF this, of cfg p ax ay] show ?thesis
    using assms Reveal by (auto simp add: apply_action_def)
next
  case (ToggleFlag p ax ay)
  then show ?thesis using toggleFlag_frame [OF assms, of p ax ay] by (simp add: apply_action_def)
qed

lemma run_actions_frame:
  assumes "getCellState db x y = Some r" "revealed r = 1"
  shows "\<exists>db'. run_actions cfg db acts = Some db' \<and> getCellState db' x y = Some r"
  using assms(1)
proof (induction acts arbitrary: db)
  case Nil
  then show ?case by simp
next
  case (Cons a acts)
  obtain db1 where "apply_action cfg db a = Some db1" "getCellState db1 x y = Some r"
    using apply_action_frame [OF Cons.prems assms(2)] by blast
  then show ?case using Cons.IH [of db1] by simp
qed

lemma not_closed_demo: "\<not> closed_cell demo_db (1, 1)"
  by (simp add: closed_cell_def getCellState_def demo_db_def revealedOrFlagged_def)

lemma not_mine_demo: "\<not> isMine demo_cfg 1 1"
  by (simp add: isMine_demo MAP_WIDTH_def MAP_HEIGHT_def number_toString_demo demo_safe_def)

lemma revealCell_demo:
  "revealCell demo_cfg demo_db ''p1'' 1 1 =
     Some (Revealed 11
             (map (\<lambda>cell. \<lparr>c_x = cd_x cell, c_y = cd_y cell, c_state = ''revealed'',
                           c_value = cd_adjacent_mines cell\<rparr>) (cellsToReveal demo_final)),
           updatePlayerScore (foldl upsertRevealedCellState demo_db (cellsToReveal demo_final)) ''p1'' 11)"
  using revealCell_safe [OF not_closed_demo not_mine_demo floodFill_demo, of "''p1''"]
  by (simp add: demo_final_def)

section \<open>The claims\<close>

subsection \<open>C1: the score arithmetic of a reveal\<close>

text \<open>
  Claim C1. For a player \<open>p\<close> with a row in \<open>players\<close> and any coordinates, \<open>revealCell\<close>
  returns, and: a result \<open>Revealed k cells\<close> has \<open>k\<close> equal to the number of cells and
  adds exactly \<open>k\<close> to the score of \<open>p\<close>; a result \<open>Mine_hit\<close> has score delta \<open>-50\<close>
  and subtracts exactly 50; a result \<open>Ignored\<close> changes no score. In each case the
  \<open>players\<close> table changes at \<open>p\<close> only, and there only in \<open>score\<close>.
\<close>

theorem reveal_score_exact:
  assumes "players db p = Some pr"
  shows "\<exists>res db'. revealCell cfg db p x y = Some (res, db') \<and>
    (case res of
       Ignored \<Rightarrow> players db' = players db
     | Mine_hit d s cells \<Rightarrow> d = - 50 \<and> length cells = 1 \<and>
         players db' = (players db)(p \<mapsto> pr\<lparr>score := score pr - 50\<rparr>)
     | Revealed k cells \<Rightarrow> k = int (length cells) \<and>
         players db' = (players db)(p \<mapsto> pr\<lparr>score := score pr + k\<rparr>))"
proof (cases "closed_cell db (x, y)")
  case True
  then show ?thesis by (simp add: revealCell_closed)
next
  case False
  show ?thesis
  proof (cases "isMine cfg x y")
    case True
    have "players (upsertRevealedCellState db \<lparr>cd_x = x, cd_y = y, cd_is_mine = 1, cd_adjacent_mines = None\<rparr>) p
        = Some pr"
      using assms by (simp add: players_upsert)
    from players_updatePlayerScore [OF this] show ?thesis
      by (simp add: revealCell_mine [OF False True] SCORE_HIT_MINE_PENALTY_def players_upsert)
  next
    case safe: False
    obtain st where st: "floodFill cfg db x y = Some st" "inv_cells db st"
      by (rule floodFill_total)
    have sc: "scoreChange st = int (length (cellsToReveal st))"
      using st(2) by (simp add: inv_cells_def)
    have "players (foldl upsertRevealedCellState db (cellsToReveal st)) p = Some pr"
      using assms by (simp add: players_foldl_upsert)
    from players_updatePlayerScore [OF this] show ?thesis
      by (simp add: revealCell_safe [OF False safe st(1)] sc players_foldl_upsert)
  qed
qed

text \<open>
  Witness: on the fixture the reveal of \<open>(1, 1)\<close> emits 11 cells and takes the score from 10 to 21.
\<close>

theorem reveal_score_exact_witness:
  "players demo_db ''p1'' = Some demo_player \<and>
   (\<exists>cells db'. revealCell demo_cfg demo_db ''p1'' 1 1 = Some (Revealed 11 cells, db') \<and>
      length cells = 11 \<and>
      players db' = (players demo_db)(''p1'' \<mapsto> demo_player\<lparr>score := 21\<rparr>))"
proof -
  have p: "players demo_db ''p1'' = Some demo_player" by (simp add: demo_db_def)
  from reveal_score_exact [OF p, of demo_cfg 1 1] revealCell_demo p show ?thesis
    by (auto simp add: demo_player_def)
qed

subsection \<open>C2: which neighbours the flood fill marks visited\<close>

text \<open>
  The claim as stated fails: the source adds a neighbour to \<open>visited\<close> inside the branch that
  enqueues it (lines 132 to 135), not after the peek in every case. On the fixture the flagged
  cell \<open>(1, 0)\<close> is a neighbour of the zero-adjacency cells \<open>(1, 1)\<close> and \<open>(2, 1)\<close>: it is
  peeked twice and is never in \<open>visited\<close>.
\<close>

theorem flood_closed_neighbour_peeked_twice:
  "floodFill demo_cfg demo_db 1 1 = Some demo_final \<and>
   revealedOrFlagged (getCellState demo_db 1 0) \<and>
   (1, 0) \<notin> visited demo_final \<and>
   count_list (peeked demo_final) (1, 0) = 2"
  by (simp add: floodFill_demo) (simp add: demo_final_def getCellState_def demo_db_def
      demo_flag_row_def revealedOrFlagged_def)

text \<open>
  Claim C2, amended. For a cell \<open>(u, v)\<close> of the grid and each of the eight offsets, the
  neighbour loop takes the wrap-aware neighbour \<open>n\<close>; if \<open>n\<close> is already in \<open>visited\<close>
  nothing happens; otherwise \<open>n\<close> is peeked in persistence, and it is enqueued and added
  to \<open>visited\<close> exactly when the peek shows neither revealed nor flagged (a neighbour whose
  peek shows revealed or flagged is not marked). Consequently, for every start cell of the
  grid the flood fill returns with an empty queue and: \<open>visited\<close> is the start cell
  together with exactly the peeked neighbours that were neither revealed nor flagged; none
  of those is peeked more than once; the result list holds exactly the visited cells that
  are neither revealed nor flagged, each with its adjacency count; and every neighbour of a
  zero-adjacency cell of the result list is the start cell or was peeked.
\<close>

theorem flood_neighbours_peeked_enqueued_iff_open:
  assumes "0 \<le> x" "x < MAP_WIDTH" "0 \<le> y" "y < MAP_HEIGHT"
  shows "(\<forall>u v d s. (u, v) \<in> grid \<and> d \<in> set offsets \<longrightarrow>
        visitNeighbor db u v s d =
          (if wrapped_neighbor (u, v) d \<in> visited s then s
           else if neighborOpen (getCellState db (fst (wrapped_neighbor (u, v) d)) (snd (wrapped_neighbor (u, v) d)))
           then s\<lparr>peeked := peeked s @ [wrapped_neighbor (u, v) d],
                  queue := queue s @ [wrapped_neighbor (u, v) d],
                  visited := insert (wrapped_neighbor (u, v) d) (visited s)\<rparr>
           else s\<lparr>peeked := peeked s @ [wrapped_neighbor (u, v) d]\<rparr>)) \<and>
    (\<exists>st. floodFill cfg db x y = Some st \<and> queue st = [] \<and>
       visited st =
         insert (x, y) {c \<in> set (peeked st). neighborOpen (getCellState db (fst c) (snd c))} \<and>
       distinct (filter (\<lambda>c. neighborOpen (getCellState db (fst c) (snd c))) (peeked st)) \<and>
       set (map cell_key (cellsToReveal st)) =
         {c \<in> visited st. neighborOpen (getCellState db (fst c) (snd c))} \<and>
       (\<forall>cd \<in> set (cellsToReveal st).
          cd_adjacent_mines cd = Some (calculateAdjacentMines cfg (cd_x cd) (cd_y cd)) \<and>
          (calculateAdjacentMines cfg (cd_x cd) (cd_y cd) = 0 \<longrightarrow>
             (\<forall>d \<in> set offsets.
                wrapped_neighbor (cell_key cd) d = (x, y) \<or>
                wrapped_neighbor (cell_key cd) d \<in> set (peeked st)))))"
proof -
  have g: "(x, y) \<in> grid" using assms by (simp add: grid_def)
  obtain st where st: "floodFill cfg db x y = Some st" "inv_struct (x, y) st" "inv_cells db st"
    "inv_peeked db (x, y) st" "queue st = []"
    by (rule floodFill_total)
  have dn: "inv_done db st" using floodFill_done [of cfg db x y] st(1) by auto
  have cv: "inv_cover cfg db st" using floodFill_cover [OF g, of cfg db] st(1) by auto
  have f: "(\<lambda>c. \<not> closed_cell db c) = (\<lambda>c. neighborOpen (getCellState db (fst c) (snd c)))"
    by (simp add: closed_cell_def neighborOpen_iff)
  have op: "neighborOpen (getCellState db (fst c) (snd c)) \<longleftrightarrow> \<not> closed_cell db c" for c
    by (simp add: closed_cell_def neighborOpen_iff)
  have v: "visited st = insert (x, y) {c \<in> set (peeked st). neighborOpen (getCellState db (fst c) (snd c))}"
    using st(4) unfolding inv_peeked_def f by auto
  have di: "distinct (filter (\<lambda>c. neighborOpen (getCellState db (fst c) (snd c))) (peeked st))"
    using st(4) unfolding inv_peeked_def f by simp
  have k1: "set (map cell_key (cellsToReveal st)) \<subseteq> visited st"
    using st(2) unfolding inv_struct_def by simp
  have k2: "\<forall>cd \<in> set (cellsToReveal st). \<not> closed_cell db (cell_key cd)"
    using st(3) by (simp add: inv_cells_def list_all_iff)
  have k3: "visited st \<subseteq> set (map cell_key (cellsToReveal st)) \<union> {c. closed_cell db c}"
    using dn st(5) by (simp add: inv_done_def)
  have ks: "set (map cell_key (cellsToReveal st)) =
         {c \<in> visited st. neighborOpen (getCellState db (fst c) (snd c))}"
  proof (rule set_eqI)
    fix c
    show "c \<in> set (map cell_key (cellsToReveal st)) \<longleftrightarrow>
        c \<in> {c \<in> visited st. neighborOpen (getCellState db (fst c) (snd c))}"
      unfolding op using k1 k2 k3 by auto
  qed
  have nb: "wrapped_neighbor (cell_key cd) d = (x, y) \<or> wrapped_neighbor (cell_key cd) d \<in> set (peeked st)"
    if "cd \<in> set (cellsToReveal st)" "calculateAdjacentMines cfg (cd_x cd) (cd_y cd) = 0"
      "d \<in> set offsets" for cd d
  proof -
    have "neighbor_covered db st (wrapped_neighbor (cell_key cd) d)"
      using cv that unfolding inv_cover_def cell_covered_def by blast
    then show ?thesis unfolding neighbor_covered_def v by blast
  qed
  have ad: "cd_adjacent_mines cd = Some (calculateAdjacentMines cfg (cd_x cd) (cd_y cd))"
    if "cd \<in> set (cellsToReveal st)" for cd
    using cv that unfolding inv_cover_def cell_covered_def by blast
  have step: "\<forall>u v d s. (u, v) \<in> grid \<and> d \<in> set offsets \<longrightarrow>
        visitNeighbor db u v s d =
          (if wrapped_neighbor (u, v) d \<in> visited s then s
           else if neighborOpen (getCellState db (fst (wrapped_neighbor (u, v) d)) (snd (wrapped_neighbor (u, v) d)))
           then s\<lparr>peeked := peeked s @ [wrapped_neighbor (u, v) d],
                  queue := queue s @ [wrapped_neighbor (u, v) d],
                  visited := insert (wrapped_neighbor (u, v) d) (visited s)\<rparr>
           else s\<lparr>peeked := peeked s @ [wrapped_neighbor (u, v) d]\<rparr>)"
    using visitNeighbor_eq by blast
  have fin: "\<exists>st. floodFill cfg db x y = Some st \<and> queue st = [] \<and>
       visited st =
         insert (x, y) {c \<in> set (peeked st). neighborOpen (getCellState db (fst c) (snd c))} \<and>
       distinct (filter (\<lambda>c. neighborOpen (getCellState db (fst c) (snd c))) (peeked st)) \<and>
       set (map cell_key (cellsToReveal st)) =
         {c \<in> visited st. neighborOpen (getCellState db (fst c) (snd c))} \<and>
       (\<forall>cd \<in> set (cellsToReveal st).
          cd_adjacent_mines cd = Some (calculateAdjacentMines cfg (cd_x cd) (cd_y cd)) \<and>
          (calculateAdjacentMines cfg (cd_x cd) (cd_y cd) = 0 \<longrightarrow>
             (\<forall>d \<in> set offsets.
                wrapped_neighbor (cell_key cd) d = (x, y) \<or>
                wrapped_neighbor (cell_key cd) d \<in> set (peeked st))))"
  proof (intro exI [of _ st] conjI ballI impI)
    show "floodFill cfg db x y = Some st" by (rule st(1))
    show "queue st = []" by (rule st(5))
    show "visited st = insert (x, y) {c \<in> set (peeked st). neighborOpen (getCellState db (fst c) (snd c))}"
      by (rule v)
    show "distinct (filter (\<lambda>c. neighborOpen (getCellState db (fst c) (snd c))) (peeked st))"
      by (rule di)
    show "set (map cell_key (cellsToReveal st)) =
         {c \<in> visited st. neighborOpen (getCellState db (fst c) (snd c))}" by (rule ks)
  next
    fix cd assume "cd \<in> set (cellsToReveal st)"
    then show "cd_adjacent_mines cd = Some (calculateAdjacentMines cfg (cd_x cd) (cd_y cd))"
      by (rule ad)
  next
    fix cd d
    assume "cd \<in> set (cellsToReveal st)" "calculateAdjacentMines cfg (cd_x cd) (cd_y cd) = 0"
      "d \<in> set offsets"
    then show "wrapped_neighbor (cell_key cd) d = (x, y) \<or> wrapped_neighbor (cell_key cd) d \<in> set (peeked st)"
      by (rule nb)
  qed
  show ?thesis using step fin by (rule conjI)
qed

text \<open>
  Witness: the fixture. The flagged neighbour \<open>(1, 0)\<close> of the start cell is peeked and
  neither enqueued nor marked.
\<close>

theorem flood_neighbours_peeked_enqueued_iff_open_witness:
  "(0::int) \<le> 1 \<and> 1 < MAP_WIDTH \<and> 1 < MAP_HEIGHT \<and>
   floodFill demo_cfg demo_db 1 1 = Some demo_final \<and>
   visited demo_final =
     insert (1, 1) {c \<in> set (peeked demo_final). neighborOpen (getCellState demo_db (fst c) (snd c))} \<and>
   set (map cell_key (cellsToReveal demo_final)) =
     {c \<in> visited demo_final. neighborOpen (getCellState demo_db (fst c) (snd c))} \<and>
   visitNeighbor demo_db 1 1 (start_state 1 1) (0, - 1) =
     (start_state 1 1)\<lparr>peeked := [(1, 0)]\<rparr>"
proof -
  have r: "(0::int) \<le> 1" "(1::int) < MAP_WIDTH" "(1::int) < MAP_HEIGHT"
    by (simp_all add: MAP_WIDTH_def MAP_HEIGHT_def)
  have g: "((1::int), (1::int)) \<in> grid" "((0::int), - (1::int)) \<in> set offsets"
    by (simp_all add: grid_def MAP_WIDTH_def MAP_HEIGHT_def offsets_eq)
  have w: "wrapped_neighbor (1, 1) (0, - 1) = (1, 0)"
    by (simp add: wrapped_neighbor_def MAP_WIDTH_def MAP_HEIGHT_def)
  have c: "\<not> neighborOpen (getCellState demo_db 1 0)"
    by (simp add: neighborOpen_def getCellState_def demo_db_def demo_flag_row_def)
  note t = flood_neighbours_peeked_enqueued_iff_open [OF r(1) r(2) r(1) r(3), of demo_db demo_cfg]
  from t have "visitNeighbor demo_db 1 1 (start_state 1 1) (0, - 1) =
     (start_state 1 1)\<lparr>peeked := [(1, 0)]\<rparr>"
    using g w c by (simp add: start_state_def)
  moreover from t floodFill_demo have "visited demo_final =
     insert (1, 1) {c \<in> set (peeked demo_final). neighborOpen (getCellState demo_db (fst c) (snd c))} \<and>
   set (map cell_key (cellsToReveal demo_final)) =
     {c \<in> visited demo_final. neighborOpen (getCellState demo_db (fst c) (snd c))}"
    by auto
  ultimately show ?thesis using r floodFill_demo by simp
qed

subsection \<open>C3: the guard of clickCell\<close>

text \<open>
  Claim C3. The guard of \<^verbatim>\<open>clickCell\<close> (commented as validation, logging the rejected
  payload as invalid coordinates) rejects a value that is not a number and a number out of
  range, but it tests \<^verbatim>\<open>typeof\<close> and the four comparisons only, not integrality: the
  payload \<open>x = 3.5, y = 5\<close> of a known session passes, and \<open>revealCell\<close> is called on
  it, where the claim has the message rejected.
\<close>

theorem clickCell_accepts_fraction:
  "handleMessage_clickCell (Some ''p1'') (JNumber (Finite (7 / 2))) (JNumber (Finite 5))
     = Calls_revealCell ''p1'' (JNumber (Finite (7 / 2))) (JNumber (Finite 5))
   \<and> \<not> is_integer (JNumber (Finite (7 / 2)))
   \<and> handleMessage_clickCell (Some ''p1'') (JNumber (Finite 3)) (JNumber (Finite 640)) = Rejected
   \<and> handleMessage_clickCell (Some ''p1'') (JString ''3'') (JNumber (Finite 4)) = Rejected"
proof -
  have "\<lfloor>7 / 2 :: rat\<rfloor> = 3" by (rule floor_unique) simp_all
  then show ?thesis
    by (simp add: handleMessage_clickCell_def typeof_def js_lt_def js_ge_def
        MAP_WIDTH_def MAP_HEIGHT_def is_integer_def)
qed

text \<open>Witness: at that payload the message is not rejected.\<close>

theorem clickCell_accepts_fraction_witness:
  "handleMessage_clickCell (Some ''p1'') (JNumber (Finite (7 / 2))) (JNumber (Finite 5)) \<noteq> Rejected"
  using clickCell_accepts_fraction by simp

subsection \<open>C5: the region query\<close>

text \<open>
  Claim C5. With \<open>(x, y)\<close> the primary key of \<open>map_state\<close>, the region query returns
  exactly the stored rows whose coordinates satisfy the wrap-aware predicate of the
  specification on both axes, each once; in particular the wrapped region
  \<open>xMin = W - 2, xMax = 2, yMin = H - 2, yMax = 2\<close> returns both \<open>(1, 1)\<close> and
  \<open>(W - 1, H - 1)\<close> when they are stored.
\<close>

theorem region_query_exact:
  assumes "distinct (map fst (map_state db))"
  shows "set (getCellStatesInRegion db xMin yMin xMax yMax) =
      {row. getCellState db (fst (fst row)) (snd (fst row)) = Some (snd row)
            \<and> spec_in_region xMin xMax yMin yMax (fst (fst row)) (snd (fst row))}
    \<and> distinct (map fst (getCellStatesInRegion db xMin yMin xMax yMax))
    \<and> (\<forall>r1 r2. getCellState db 1 1 = Some r1 \<and> getCellState db (MAP_WIDTH - 1) (MAP_HEIGHT - 1) = Some r2 \<longrightarrow>
          {((1, 1), r1), ((MAP_WIDTH - 1, MAP_HEIGHT - 1), r2)}
            \<subseteq> set (getCellStatesInRegion db (MAP_WIDTH - 2) (MAP_HEIGHT - 2) 2 2))"
proof -
  have a: "set (getCellStatesInRegion db xMin yMin xMax yMax) =
      {row. getCellState db (fst (fst row)) (snd (fst row)) = Some (snd row)
            \<and> spec_in_region xMin xMax yMin yMax (fst (fst row)) (snd (fst row))}"
    for xMin yMin xMax yMax
    using assms
    by (auto simp add: getCellStatesInRegion_def getCellState_def axis_condition_spec
        dest: map_of_SomeD)
  have b: "distinct (map fst (getCellStatesInRegion db xMin yMin xMax yMax))"
    using assms by (simp add: getCellStatesInRegion_def distinct_map_filter)
  have c: "spec_in_region (MAP_WIDTH - 2) 2 (MAP_HEIGHT - 2) 2 1 1"
    "spec_in_region (MAP_WIDTH - 2) 2 (MAP_HEIGHT - 2) 2 (MAP_WIDTH - 1) (MAP_HEIGHT - 1)"
    by (simp_all add: spec_in_region_def MAP_WIDTH_def MAP_HEIGHT_def)
  show ?thesis using b c by (simp add: a)
qed

text \<open>
  Witness: three stored rows, two of them inside the wrapped region.
\<close>

theorem region_query_exact_witness:
  "distinct (map fst (map_state region_db)) \<and>
   getCellStatesInRegion region_db (MAP_WIDTH - 2) (MAP_HEIGHT - 2) 2 2
     = [((1, 1), demo_revealed_row), ((639, 639), demo_revealed_row)] \<and>
   set (getCellStatesInRegion region_db (MAP_WIDTH - 2) (MAP_HEIGHT - 2) 2 2) =
      {row. getCellState region_db (fst (fst row)) (snd (fst row)) = Some (snd row)
            \<and> spec_in_region (MAP_WIDTH - 2) 2 (MAP_HEIGHT - 2) 2 (fst (fst row)) (snd (fst row))}"
proof -
  have d: "distinct (map fst (map_state region_db))" by (simp add: region_db_def)
  have e: "getCellStatesInRegion region_db (MAP_WIDTH - 2) (MAP_HEIGHT - 2) 2 2
     = [((1, 1), demo_revealed_row), ((639, 639), demo_revealed_row)]"
    by (simp add: getCellStatesInRegion_def region_db_def axis_condition_def MAP_WIDTH_def MAP_HEIGHT_def)
  from region_query_exact [OF d, of "MAP_WIDTH - 2" "MAP_HEIGHT - 2" 2 2] d e show ?thesis
    by blast
qed

subsection \<open>C6: a revealed cell is final\<close>

text \<open>
  Claim C6. If the stored row of \<open>(x, y)\<close> has \<open>revealed = 1\<close>, then every finite sequence
  of \<open>revealCell\<close> and \<open>toggleFlag\<close> calls (any players, any cells) runs to the end and
  leaves that row as it is: not deleted, not changed in any column. On the cell itself
  \<open>revealCell\<close> and \<open>toggleFlag\<close> return ignored and the database is unchanged.
\<close>

theorem revealed_cell_immutable:
  assumes "getCellState db x y = Some r" "revealed r = 1"
  shows "(\<exists>db'. run_actions cfg db acts = Some db' \<and> getCellState db' x y = Some r) \<and>
    revealCell cfg db p x y = Some (Ignored, db) \<and>
    toggleFlag db p x y = (Flag_ignored, db)"
proof -
  have "closed_cell db (x, y)" using assms by (simp add: closed_cell_def revealedOrFlagged_def)
  then have "revealCell cfg db p x y = Some (Ignored, db)" by (rule revealCell_closed)
  then show ?thesis
    using run_actions_frame [OF assms, of cfg acts] toggleFlag_revealed [OF assms, of p] by simp
qed

text \<open>
  Witness: a revealed row on \<open>(1, 1)\<close> and four operations, two of them on that cell.
\<close>

theorem revealed_cell_immutable_witness:
  "getCellState region_db 1 1 = Some demo_revealed_row \<and> revealed demo_revealed_row = 1 \<and>
   (\<exists>db'. run_actions demo_cfg region_db demo_actions = Some db' \<and>
      getCellState db' 1 1 = Some demo_revealed_row) \<and>
   revealCell demo_cfg region_db ''p1'' 1 1 = Some (Ignored, region_db) \<and>
   toggleFlag region_db ''p1'' 1 1 = (Flag_ignored, region_db)"
proof -
  have a: "getCellState region_db 1 1 = Some demo_revealed_row"
    by (simp add: getCellState_def region_db_def)
  have b: "revealed demo_revealed_row = 1" by (simp add: demo_revealed_row_def)
  from revealed_cell_immutable [OF a b, of demo_cfg demo_actions "''p1''"] a b show ?thesis
    by simp
qed

subsection \<open>C7: the flood stops at a flag\<close>



subsection \<open>C8: termination and the bound on upserts\<close>

text \<open>
  Claim C8. For every start cell of the grid and every database the flood fill returns,
  with an empty queue and at most \<open>W \<times> H\<close> cells to reveal; \<open>performSafeReveal\<close>
  returns, having issued one upsert per cell of that list; and \<open>revealCell\<close> returns.
\<close>

theorem floodFill_terminates_bounded:
  assumes "0 \<le> x" "x < MAP_WIDTH" "0 \<le> y" "y < MAP_HEIGHT"
  shows "\<exists>st. floodFill cfg db x y = Some st \<and> queue st = [] \<and>
      length (cellsToReveal st) \<le> nat (MAP_WIDTH * MAP_HEIGHT) \<and>
      performSafeReveal cfg db x y p =
        Some ((cellsToReveal st, scoreChange st),
          (if cellsToReveal st \<noteq> []
           then updatePlayerScore (foldl upsertRevealedCellState db (cellsToReveal st)) p (scoreChange st)
           else db)) \<and>
      (\<exists>out. revealCell cfg db p x y = Some out)"
proof -
  obtain st where st: "floodFill cfg db x y = Some st" "inv_struct (x, y) st" "queue st = []"
    by (rule floodFill_total)
  have s: "(x, y) \<in> grid" using assms by (simp add: grid_def)
  have "distinct (map cell_key (cellsToReveal st))" using st(2) by (simp add: inv_struct_def)
  then have "length (cellsToReveal st) = card (set (map cell_key (cellsToReveal st)))"
    using distinct_card [of "map cell_key (cellsToReveal st)"] by simp
  also have "\<dots> \<le> card grid"
  proof (rule card_mono [OF finite_grid])
    show "set (map cell_key (cellsToReveal st)) \<subseteq> grid"
      using st(2) s unfolding inv_struct_def by auto
  qed
  finally have "length (cellsToReveal st) \<le> nat (MAP_WIDTH * MAP_HEIGHT)"
    by (simp add: card_grid)
  moreover have "\<exists>out. revealCell cfg db p x y = Some out"
    by (simp add: revealCell_def Let_def performSafeReveal_eq [OF st(1)])
  ultimately show ?thesis using st(1,3) performSafeReveal_eq [OF st(1), of p] by simp
qed

text \<open>
  Witness: the flood fill of the fixture returns with 11 cells.
\<close>

theorem floodFill_terminates_bounded_witness:
  "(0::int) \<le> 1 \<and> 1 < MAP_WIDTH \<and> 1 < MAP_HEIGHT \<and>
   (\<exists>st. floodFill demo_cfg demo_db 1 1 = Some st \<and> queue st = [] \<and>
      length (cellsToReveal st) = 11 \<and> length (cellsToReveal st) \<le> nat (MAP_WIDTH * MAP_HEIGHT))"
proof -
  have r: "(0::int) \<le> 1" "(1::int) < MAP_WIDTH" "(1::int) < MAP_HEIGHT"
    by (simp_all add: MAP_WIDTH_def MAP_HEIGHT_def)
  have l: "length (cellsToReveal demo_final) = 11" by (simp add: demo_final_def)
  from floodFill_terminates_bounded [OF r(1) r(2) r(1) r(3), of demo_cfg demo_db "''p1''"]
    r l floodFill_demo
  show ?thesis by auto
qed

subsection \<open>C9: the adjacency count\<close>

text \<open>
  Claim C9. For every in-range \<open>(x, y)\<close>, \<open>calculateAdjacentMines\<close> is the number of mines
  among \<open>((x + dx) mod W, (y + dy) mod H)\<close> over the eight offsets of
  \<open>{-1, 0, 1}\<^sup>2\<close> without \<open>(0, 0)\<close>, where \<open>mod\<close> is the mathematical modulus
  (\<open>-1 mod W = W - 1\<close>); it lies between 0 and 8.
\<close>

theorem adjacentMines_is_neighbour_sum:
  assumes "0 \<le> x" "x < MAP_WIDTH" "0 \<le> y" "y < MAP_HEIGHT"
  shows "calculateAdjacentMines cfg x y =
      (\<Sum>(dx, dy) \<in> {-1, 0, 1} \<times> {-1, 0, 1} - {(0, 0)}.
          of_bool (isMine cfg ((x + dx) mod MAP_WIDTH) ((y + dy) mod MAP_HEIGHT)))
    \<and> 0 \<le> calculateAdjacentMines cfg x y \<and> calculateAdjacentMines cfg x y \<le> 8"
proof -
  let ?f = "\<lambda>d. of_bool (isMine cfg ((x + fst d) mod MAP_WIDTH) ((y + snd d) mod MAP_HEIGHT)) :: int"
  have c: "calculateAdjacentMines cfg x y = sum_list (map ?f offsets)"
    using assms foldl_countMine [OF assms, of offsets cfg 0]
    by (simp add: calculateAdjacentMines_def)
  have "distinct offsets" by (simp add: offsets_eq)
  then have "sum_list (map ?f offsets) = sum ?f (set offsets)"
    by (rule sum.distinct_set_conv_list [symmetric])
  also have "\<dots> = (\<Sum>(dx, dy) \<in> {-1, 0, 1} \<times> {-1, 0, 1} - {(0, 0)}.
          of_bool (isMine cfg ((x + dx) mod MAP_WIDTH) ((y + dy) mod MAP_HEIGHT)))"
    unfolding offsets_set by (simp add: case_prod_unfold)
  finally have s: "sum_list (map ?f offsets) = (\<Sum>(dx, dy) \<in> {-1, 0, 1} \<times> {-1, 0, 1} - {(0, 0)}.
          of_bool (isMine cfg ((x + dx) mod MAP_WIDTH) ((y + dy) mod MAP_HEIGHT)))" .
  have b: "0 \<le> sum_list (map ?f offsets) \<and> sum_list (map ?f offsets) \<le> 8"
    by (simp add: offsets_eq of_bool_def)
  show ?thesis using c s b by simp
qed

text \<open>
  Witness: the corner \<open>(0, 0)\<close> of the fixture, with five mines across the wrap.
\<close>

theorem adjacentMines_is_neighbour_sum_witness:
  "(0::int) \<le> 0 \<and> 0 < MAP_WIDTH \<and> 0 < MAP_HEIGHT \<and>
   calculateAdjacentMines demo_cfg 0 0 = 5 \<and>
   (\<Sum>(dx, dy) \<in> {-1, 0, 1} \<times> {-1, 0, 1} - {(0, 0)}.
          of_bool (isMine demo_cfg ((0 + dx) mod MAP_WIDTH) ((0 + dy) mod MAP_HEIGHT))) = (5::int)"
proof -
  have r: "(0::int) \<le> 0" "(0::int) < MAP_WIDTH" "(0::int) < MAP_HEIGHT"
    by (simp_all add: MAP_WIDTH_def MAP_HEIGHT_def)
  from adjacentMines_is_neighbour_sum [OF r(1) r(2) r(1) r(3), of demo_cfg] r adjacent_demo(3)
  show ?thesis by simp
qed

subsection \<open>C10: toggling a flag twice\<close>

text \<open>
  Claim C10. On a cell with no stored row, the first \<open>toggleFlag\<close> returns flagged and
  leaves the row \<open>revealed = 0, flag_state = 1\<close>; the second returns unflagged and leaves
  no row for the cell: the database is the one before the first call.
\<close>

theorem toggleFlag_twice_roundtrip:
  assumes "getCellState db x y = None"
  shows "fst (toggleFlag db p x y) = Flagged (x, y, ''flagged'')
    \<and> getCellState (snd (toggleFlag db p x y)) x y
        = Some \<lparr>revealed = 0, is_mine = None, adjacent_mines = None, flag_state = 1\<rparr>
    \<and> fst (toggleFlag (snd (toggleFlag db p x y)) q x y) = Unflagged (x, y, ''hidden'')
    \<and> getCellState (snd (toggleFlag (snd (toggleFlag db p x y)) q x y)) x y = None
    \<and> snd (toggleFlag (snd (toggleFlag db p x y)) q x y) = db"
proof -
  let ?row = "\<lparr>revealed = 0, is_mine = None, adjacent_mines = None, flag_state = 1\<rparr>"
  let ?db1 = "db\<lparr>map_state := map_state db @ [((x, y), ?row)]\<rparr>"
  have n: "map_of (map_state db) (x, y) = None" using assms by (simp add: getCellState_def)
  have t1: "toggleFlag db p x y = (Flagged (x, y, ''flagged''), ?db1)"
    using n by (simp add: toggleFlag_def getCellState_def setFlagState_def)
  have g1: "getCellState ?db1 x y = Some ?row"
    using n by (simp add: getCellState_def map_add_def)
  have f: "filter (\<lambda>row. \<not> (fst row = (x, y) \<and> revealed (snd row) = 0)) (map_state db) = map_state db"
    using n by (rule filter_absent)
  have t2: "toggleFlag ?db1 q x y = (Unflagged (x, y, ''hidden''), db)"
    using g1 f by (simp add: toggleFlag_def setFlagState_def)
  show ?thesis using t1 g1 t2 assms by simp
qed

text \<open>
  Witness: the cell \<open>(50, 50)\<close> of the fixture.
\<close>

theorem toggleFlag_twice_roundtrip_witness:
  "getCellState demo_db 50 50 = None \<and>
   fst (toggleFlag demo_db ''p1'' 50 50) = Flagged (50, 50, ''flagged'') \<and>
   getCellState (snd (toggleFlag demo_db ''p1'' 50 50)) 50 50 = Some demo_flag_row \<and>
   fst (toggleFlag (snd (toggleFlag demo_db ''p1'' 50 50)) ''p1'' 50 50) = Unflagged (50, 50, ''hidden'') \<and>
   snd (toggleFlag (snd (toggleFlag demo_db ''p1'' 50 50)) ''p1'' 50 50) = demo_db"
proof -
  have a: "getCellState demo_db 50 50 = None" by (simp add: getCellState_def demo_db_def)
  from toggleFlag_twice_roundtrip [OF a, of "''p1''" "''p1''"] a show ?thesis
    by (simp add: demo_flag_row_def)
qed

end
